theory Spec2Isabelle
  imports Main "HOL-Library.Word"
begin

unbundle bit_operations_syntax

section \<open>Bytes, files and the struct module\<close>

text \<open>
  A byte is an 8-bit word, a file or a \<^verbatim>\<open>bytes\<close> object a list of bytes. Python integers
  are unbounded, so every integer read from or written to a file is a \<^typ>\<open>nat\<close>; the range
  checks of \<^verbatim>\<open>struct.pack\<close> are written out. Every exception the two scripts can raise
  on their data is a value of \<open>py_error\<close>.
\<close>

type_synonym byte = "8 word"

datatype py_error =
  StructError | UnicodeDecodeError | UnicodeEncodeError | IndexError | OSError | ValueError

text \<open>\<^verbatim>\<open>file.seek(pos); file.read(n)\<close>: a read past the end of the file is short or empty.\<close>

definition file_read :: "byte list \<Rightarrow> nat \<Rightarrow> nat \<Rightarrow> byte list" where
  "file_read file pos n = take n (drop pos file)"

text \<open>The slice \<^verbatim>\<open>a[i:j]\<close> for \<open>0 \<le> i \<le> j\<close>.\<close>

definition py_slice :: "'a list \<Rightarrow> nat \<Rightarrow> nat \<Rightarrow> 'a list" where
  "py_slice a i j = take (j - i) (drop i a)"

text \<open>\<^verbatim>\<open>struct.unpack('<I', b)[0]\<close>: raises \<^verbatim>\<open>struct.error\<close> unless \<open>b\<close> has exactly 4 bytes.\<close>

fun unpack_u32 :: "byte list \<Rightarrow> py_error + nat" where
  "unpack_u32 [b0, b1, b2, b3] =
     Inr (unat b0 + 256 * unat b1 + 65536 * unat b2 + 16777216 * unat b3)"
| "unpack_u32 bs = Inl StructError"

text \<open>The four little-endian bytes of a value below \<open>2 ^ 32\<close>.\<close>

definition le32 :: "nat \<Rightarrow> byte list" where
  "le32 v = [of_nat v, of_nat (v div 256), of_nat (v div 65536), of_nat (v div 16777216)]"

text \<open>\<^verbatim>\<open>struct.pack('<I', v)\<close>: raises \<^verbatim>\<open>struct.error\<close> when \<open>v\<close> does not fit 32 bits.\<close>

definition pack_u32 :: "nat \<Rightarrow> py_error + byte list" where
  "pack_u32 v = (if v < 2 ^ 32 then Inr (le32 v) else Inl StructError)"

text \<open>\<^verbatim>\<open>struct.unpack('<II', b)\<close>: exactly 8 bytes, two values.\<close>

definition unpack_u32_pair :: "byte list \<Rightarrow> py_error + (nat \<times> nat)" where
  "unpack_u32_pair bs =
     (if length bs = 8 then
        (case unpack_u32 (take 4 bs) of
           Inl e \<Rightarrow> Inl e
         | Inr a \<Rightarrow> (case unpack_u32 (drop 4 bs) of Inl e \<Rightarrow> Inl e | Inr b \<Rightarrow> Inr (a, b)))
      else Inl StructError)"

text \<open>\<^verbatim>\<open>struct.pack('<II', a, b)\<close>.\<close>

definition pack_u32_pair :: "nat \<Rightarrow> nat \<Rightarrow> py_error + byte list" where
  "pack_u32_pair a b =
     (if a < 2 ^ 32 \<and> b < 2 ^ 32 then Inr (le32 a @ le32 b) else Inl StructError)"

text \<open>
  \<^verbatim>\<open>struct.pack_into('<I', buf, i, v)\<close>: overwrites \<open>buf[i:i+4]\<close>; raises when the value
  does not fit or the buffer is too short.
\<close>

definition pack_into_u32 :: "byte list \<Rightarrow> nat \<Rightarrow> nat \<Rightarrow> py_error + byte list" where
  "pack_into_u32 buf i v =
     (if v < 2 ^ 32 \<and> i + 4 \<le> length buf
      then Inr (take i buf @ le32 v @ drop (i + 4) buf)
      else Inl StructError)"

text \<open>\<^verbatim>\<open>range(start, stop, step)\<close> for a positive step and non-negative bounds.\<close>

definition py_range :: "nat \<Rightarrow> nat \<Rightarrow> nat \<Rightarrow> nat list" where
  "py_range start stop step =
     (if stop \<le> start then []
      else map (\<lambda>k. start + k * step) [0..<(stop - start + step - 1) div step])"

section \<open>Strings\<close>

text \<open>
  Names are ASCII strings. \<^verbatim>\<open>bytes.decode('ascii')\<close> raises on a byte above 127,
  \<^verbatim>\<open>str.encode('ascii')\<close> on a character above 127.
\<close>

definition ascii_decode :: "byte list \<Rightarrow> py_error + string" where
  "ascii_decode bs =
     (if list_all (\<lambda>b. unat b < 128) bs then Inr (map (\<lambda>b. char_of (unat b)) bs)
      else Inl UnicodeDecodeError)"

definition ascii_encode :: "string \<Rightarrow> py_error + byte list" where
  "ascii_encode s =
     (if list_all (\<lambda>c. (of_char c :: nat) < 128) s then Inr (map (\<lambda>c. of_nat (of_char c)) s)
      else Inl UnicodeEncodeError)"

text \<open>\<^verbatim>\<open>s.rstrip('\0')\<close>.\<close>

definition rstrip_nul :: "string \<Rightarrow> string" where
  "rstrip_nul s = rev (dropWhile (\<lambda>c. c = CHR 0x00) (rev s))"

text \<open>\<^verbatim>\<open>b.ljust(width, b'\0')\<close>: a value already as long as the width is returned whole.\<close>

definition ljust_nul :: "byte list \<Rightarrow> nat \<Rightarrow> byte list" where
  "ljust_nul bs width = bs @ replicate (width - length bs) 0"

text \<open>\<^verbatim>\<open>str.lower()\<close> on ASCII text: only the letters A to Z change.\<close>

definition lower_char :: "char \<Rightarrow> char" where
  "lower_char c =
     (if (65::nat) \<le> of_char c \<and> (of_char c :: nat) \<le> 90 then char_of ((of_char c :: nat) + 32)
      else c)"

definition lower :: "string \<Rightarrow> string" where
  "lower s = map lower_char s"

text \<open>
  \<^verbatim>\<open>os.path.splitext(p)[1]\<close> with the POSIX separator: the extension starts at the last dot,
  provided that dot comes after the last slash and is preceded, within the file name, by a
  character other than a dot; otherwise the extension is empty.
\<close>

definition rfind :: "char \<Rightarrow> string \<Rightarrow> nat option" where
  "rfind c s =
     (if c \<in> set s then Some (length s - 1 - length (takeWhile (\<lambda>x. x \<noteq> c) (rev s)))
      else None)"

definition splitext_ext :: "string \<Rightarrow> string" where
  "splitext_ext p =
     (case rfind CHR ''.'' p of
        None \<Rightarrow> []
      | Some dotIndex \<Rightarrow>
          (let filenameIndex = (case rfind CHR ''/'' p of None \<Rightarrow> 0 | Some sepIndex \<Rightarrow> sepIndex + 1)
           in if filenameIndex \<le> dotIndex \<and>
                 list_ex (\<lambda>c. c \<noteq> CHR ''.'') (py_slice p filenameIndex dotIndex)
              then drop dotIndex p else []))"

text \<open>\<^verbatim>\<open>name.split('.')[-1]\<close>: what follows the last dot, the whole name when it has none.\<close>

definition split_last :: "string \<Rightarrow> string" where
  "split_last s = rev (takeWhile (\<lambda>c. c \<noteq> CHR ''.'') (rev s))"

section \<open>ExPac.py: the entry and its kind\<close>

datatype kind = Image | Audio | Unknown

record entry =
  entry_name :: string
  entry_size :: nat
  entry_offset :: nat
  entry_type :: kind

text \<open>\<^verbatim>\<open>Entry.determine_type\<close>: the extension is lowercased, the lists are the source's.\<close>

definition determine_type :: "string \<Rightarrow> kind" where
  "determine_type nm =
     (let ext = lower (splitext_ext nm)
      in if ext \<in> set [''.BPIC'', ''.pgd'', ''.PIC''] then Image
         else if ext \<in> set [''.wav'', ''.ogg''] then Audio
         else Unknown)"

text \<open>\<^verbatim>\<open>Entry(name)\<close> followed by the two assignments of \<^verbatim>\<open>read_index\<close>.\<close>

definition mk_entry :: "string \<Rightarrow> nat \<Rightarrow> nat \<Rightarrow> entry" where
  "mk_entry nm sz off =
     \<lparr>entry_name = nm, entry_size = sz, entry_offset = off, entry_type = determine_type nm\<rparr>"

section \<open>The payload cipher\<close>

text \<open>The mask \<^verbatim>\<open>0x084DF873 ^ 0xFF987DEE\<close>.\<close>

definition cipher_mask :: nat where
  "cipher_mask = 0x084DF873 XOR 0xFF987DEE"

text \<open>
  \<^verbatim>\<open>(b << s) & 0xFF | (b >> (8 - s))\<close> and \<^verbatim>\<open>(b >> s) | (b << (8 - s)) & 0xFF\<close> on a byte:
  on an 8-bit word \<open>push_bit\<close> drops the bits the mask \<^verbatim>\<open>0xFF\<close> removes.
\<close>

definition rotl8 :: "nat \<Rightarrow> byte \<Rightarrow> byte" where
  "rotl8 s b = push_bit s b OR drop_bit (8 - s) b"

definition rotr8 :: "nat \<Rightarrow> byte \<Rightarrow> byte" where
  "rotr8 s b = drop_bit s b OR push_bit (8 - s) b"

text \<open>\<^verbatim>\<open>shift += 1; if shift > 7: shift = 0\<close>, the same two lines in both scripts.\<close>

definition next_shift :: "nat \<Rightarrow> nat" where
  "next_shift shift = (if shift + 1 > 7 then 0 else shift + 1)"

text \<open>One iteration of the loop of \<^verbatim>\<open>PacOpener.open_entry\<close> (lines 83 to 89).\<close>

definition decrypt_step :: "nat \<Rightarrow> nat \<Rightarrow> byte list \<Rightarrow> py_error + (nat \<times> byte list)" where
  "decrypt_step i shift data_array =
     (if i < length data_array then
        (let a1 = data_array[i := rotl8 shift (data_array ! i)]
         in case unpack_u32 (py_slice a1 i (i + 4)) of
              Inl e \<Rightarrow> Inl e
            | Inr v \<Rightarrow>
                (case pack_into_u32 a1 i (v XOR cipher_mask) of
                   Inl e \<Rightarrow> Inl e
                 | Inr a2 \<Rightarrow> Inr (next_shift shift, a2)))
      else Inl IndexError)"

fun decrypt_loop :: "nat list \<Rightarrow> nat \<Rightarrow> byte list \<Rightarrow> py_error + byte list" where
  "decrypt_loop [] shift data_array = Inr data_array"
| "decrypt_loop (i # rest) shift data_array =
     (case decrypt_step i shift data_array of
        Inl e \<Rightarrow> Inl e
      | Inr (shift', a') \<Rightarrow> decrypt_loop rest shift' a')"

text \<open>Lines 78 to 90 of \<^verbatim>\<open>open_entry\<close>: the word count guards the loop, the range bounds it.\<close>

definition decrypt_data :: "byte list \<Rightarrow> py_error + byte list" where
  "decrypt_data data =
     (let count = (int (length data) - 16) div 4
      in if count > 0 then decrypt_loop (py_range 16 (length data) 4) 4 data else Inr data)"

text \<open>
  \<^verbatim>\<open>PacOpener.open_entry\<close>. The test \<^verbatim>\<open>data[0] != ord('$')\<close> is only reached for a declared
  size above 16, and raises \<^verbatim>\<open>IndexError\<close> when the read returned nothing.
\<close>

definition open_entry :: "byte list \<Rightarrow> entry \<Rightarrow> py_error + byte list" where
  "open_entry file e =
     (let data = file_read file (entry_offset e) (entry_size e)
      in if entry_type e \<in> set [Image, Audio] \<or> entry_size e \<le> 16 then Inr data
         else (case data of
                 [] \<Rightarrow> Inl IndexError
               | b # _ \<Rightarrow> if b \<noteq> 0x24 then Inr data else decrypt_data data))"

text \<open>One iteration of the loop of \<^verbatim>\<open>PacPacker.encrypt_data\<close> (lines 69 to 75).\<close>

definition encrypt_step :: "nat \<Rightarrow> nat \<Rightarrow> byte list \<Rightarrow> py_error + (nat \<times> byte list)" where
  "encrypt_step i shift data_array =
     (case unpack_u32 (py_slice data_array i (i + 4)) of
        Inl e \<Rightarrow> Inl e
      | Inr v \<Rightarrow>
          (case pack_into_u32 data_array i (v XOR cipher_mask) of
             Inl e \<Rightarrow> Inl e
           | Inr a1 \<Rightarrow>
               if i < length a1
               then Inr (next_shift shift, a1[i := rotr8 shift (a1 ! i)])
               else Inl IndexError))"

fun encrypt_loop :: "nat list \<Rightarrow> nat \<Rightarrow> byte list \<Rightarrow> py_error + byte list" where
  "encrypt_loop [] shift data_array = Inr data_array"
| "encrypt_loop (i # rest) shift data_array =
     (case encrypt_step i shift data_array of
        Inl e \<Rightarrow> Inl e
      | Inr (shift', a') \<Rightarrow> encrypt_loop rest shift' a')"

text \<open>\<^verbatim>\<open>PacPacker.encrypt_data\<close>.\<close>

definition encrypt_data :: "byte list \<Rightarrow> py_error + byte list" where
  "encrypt_data data =
     (case data of
        [] \<Rightarrow> Inl IndexError
      | b # _ \<Rightarrow>
          if b \<noteq> 0x24 then Inr data
          else (let count = (int (length data) - 16) div 4
                in if count > 0 then encrypt_loop (py_range 16 (length data) 4) 4 data
                   else Inr data))"

section \<open>ExPac.py: the index and the openers\<close>

definition is_sane_count :: "nat \<Rightarrow> bool" where
  "is_sane_count count = (0 < count \<and> count < 100000)"

text \<open>
  \<^verbatim>\<open>PacOpener.read_index\<close>: one record per iteration, the name decoded before the two
  integers are unpacked, so the first failing record decides the exception.
\<close>

fun read_index :: "byte list \<Rightarrow> nat \<Rightarrow> nat \<Rightarrow> nat \<Rightarrow> py_error + entry list" where
  "read_index file 0 index_offset name_length = Inr []"
| "read_index file (Suc count) index_offset name_length =
     (case ascii_decode (file_read file index_offset name_length) of
        Inl e \<Rightarrow> Inl e
      | Inr s \<Rightarrow>
          (case unpack_u32_pair (file_read file (index_offset + name_length) 8) of
             Inl e \<Rightarrow> Inl e
           | Inr (sz, off) \<Rightarrow>
               (case read_index file count (index_offset + name_length + 8) name_length of
                  Inl e \<Rightarrow> Inl e
                | Inr entries \<Rightarrow> Inr (mk_entry (rstrip_nul s) sz off # entries))))"

text \<open>\<^verbatim>\<open>PacOpener.try_open\<close>: \<open>None\<close> is the \<^verbatim>\<open>return None\<close> of the source.\<close>

definition try_open :: "byte list \<Rightarrow> py_error + entry list option" where
  "try_open file =
     (case unpack_u32 (file_read file 0 4) of
        Inl e \<Rightarrow> Inl e
      | Inr count \<Rightarrow>
          if \<not> is_sane_count count then Inr None
          else
            (let index_offset = 0x3FE; name_length = 0x20
             in case unpack_u32 (file_read file (index_offset + name_length + 4) 4) of
                  Inl e \<Rightarrow> Inl e
                | Inr first_offset \<Rightarrow>
                    if first_offset \<noteq> index_offset + count * (name_length + 8) then
                      (let name_length = 0x10
                       in case unpack_u32 (file_read file (index_offset + name_length + 4) 4) of
                            Inl e \<Rightarrow> Inl e
                          | Inr first_offset \<Rightarrow>
                              if first_offset \<noteq> index_offset + count * (name_length + 8)
                              then Inr None
                              else map_sum id Some
                                     (read_index file count index_offset name_length))
                    else map_sum id Some (read_index file count index_offset name_length)))"

text \<open>\<^verbatim>\<open>Pac2Opener.try_open\<close>: the count at offset 8, one layout.\<close>

definition pac2_try_open :: "byte list \<Rightarrow> py_error + entry list option" where
  "pac2_try_open file =
     (case unpack_u32 (file_read file 8 4) of
        Inl e \<Rightarrow> Inl e
      | Inr count \<Rightarrow>
          if \<not> is_sane_count count then Inr None
          else
            (let index_offset = 0x804; name_length = 0x20
             in case unpack_u32 (file_read file (index_offset + name_length + 4) 4) of
                  Inl e \<Rightarrow> Inl e
                | Inr first_offset \<Rightarrow>
                    if first_offset \<noteq> index_offset + count * (name_length + 8) then Inr None
                    else map_sum id Some (read_index file count index_offset name_length)))"

section \<open>ExPac.py: extract\_archive\<close>

datatype opener = PacOpener | Pac2Opener

text \<open>The truth value Python gives \<^verbatim>\<open>entries\<close> in \<^verbatim>\<open>if entries: break\<close>.\<close>

definition truthy :: "entry list option \<Rightarrow> bool" where
  "truthy r = (case r of None \<Rightarrow> False | Some entries \<Rightarrow> entries \<noteq> [])"

text \<open>
  The loop over \<^verbatim>\<open>[PacOpener(), Pac2Opener()]\<close> (lines 116 to 122): the result is the
  opener the loop stopped at and the entries it returned.
\<close>

definition find_opener :: "byte list \<Rightarrow> py_error + (opener \<times> entry list option)" where
  "find_opener file =
     (case try_open file of
        Inl e \<Rightarrow> Inl e
      | Inr entries \<Rightarrow>
          if truthy entries then Inr (PacOpener, entries)
          else (case pac2_try_open file of
                  Inl e \<Rightarrow> Inl e
                | Inr entries2 \<Rightarrow> Inr (Pac2Opener, entries2)))"

text \<open>
  The output directory. A member of a directory is a regular file with its bytes or a
  subdirectory; the members of the output directory are a map from names. What is at the
  path \<^verbatim>\<open>output_dir\<close> before the call: nothing, something that is no directory, or a
  directory with its members.
\<close>

datatype node = File "byte list" | Dir

datatype out_path = Absent | Blocked | Present "string \<rightharpoonup> node"

text \<open>
  \<^verbatim>\<open>os.makedirs(output_dir, exist_ok=True)\<close>: creates an empty directory, keeps an
  existing one, raises \<^verbatim>\<open>OSError\<close> when the path is taken by something else.
\<close>

definition makedirs :: "out_path \<Rightarrow> py_error + (string \<rightharpoonup> node)" where
  "makedirs p =
     (case p of Absent \<Rightarrow> Inr Map.empty | Blocked \<Rightarrow> Inl OSError | Present m \<Rightarrow> Inr m)"

text \<open>
  A name that can be a member of a directory: not empty, not \<open>.\<close> or \<open>..\<close>, without a
  separator and without NUL.
\<close>

definition is_plain_name :: "string \<Rightarrow> bool" where
  "is_plain_name nm =
     (nm \<noteq> [] \<and> nm \<noteq> ''.'' \<and> nm \<noteq> ''..'' \<and> CHR ''/'' \<notin> set nm \<and> CHR 0x00 \<notin> set nm)"

text \<open>
  \<^verbatim>\<open>open(os.path.join(output_dir, entry.name), 'wb')\<close> and the write (lines 131 to 135).
  A NUL in the name raises \<^verbatim>\<open>ValueError\<close>. The names \<open>''\<close>, \<open>.\<close> and \<open>..\<close> and the name
  of a subdirectory address a directory and raise \<^verbatim>\<open>OSError\<close>. A name with a separator
  addresses a place in a subdirectory or outside the output directory; only the members
  of the output directory are modelled, so it is answered with \<^verbatim>\<open>OSError\<close>, as the
  operating system does when that place does not exist. Any other name creates the
  member or replaces its bytes.
\<close>

definition write_output ::
    "(string \<rightharpoonup> node) \<Rightarrow> string \<Rightarrow> byte list \<Rightarrow> py_error + (string \<rightharpoonup> node)" where
  "write_output out nm data =
     (if CHR 0x00 \<in> set nm then Inl ValueError
      else if \<not> is_plain_name nm then Inl OSError
      else (case out nm of
              Some Dir \<Rightarrow> Inl OSError
            | _ \<Rightarrow> Inr (out(nm \<mapsto> File data))))"

text \<open>
  The extraction loop (lines 130 to 135). Both openers share \<^verbatim>\<open>open_entry\<close>. Each entry
  is read and decoded, then written to the output directory under its name; the first
  exception ends the loop. The result is the output directory after the last write.
\<close>

fun extract_entries ::
    "byte list \<Rightarrow> entry list \<Rightarrow> (string \<rightharpoonup> node) \<Rightarrow> py_error + (string \<rightharpoonup> node)" where
  "extract_entries file [] out = Inr out"
| "extract_entries file (e # rest) out =
     (case open_entry file e of
        Inl err \<Rightarrow> Inl err
      | Inr data \<Rightarrow>
          (case write_output out (entry_name e) data of
             Inl err \<Rightarrow> Inl err
           | Inr out' \<Rightarrow> extract_entries file rest out'))"

text \<open>
  \<^verbatim>\<open>extract_archive\<close>: \<open>Inr None\<close> is the branch that prints the failure and returns
  before the output directory is made; otherwise the result is the output directory
  after the extraction.
\<close>

definition extract_archive ::
    "byte list \<Rightarrow> out_path \<Rightarrow> py_error + (string \<rightharpoonup> node) option" where
  "extract_archive file output_dir =
     (case find_opener file of
        Inl e \<Rightarrow> Inl e
      | Inr (opener, None) \<Rightarrow> Inr None
      | Inr (opener, Some entries) \<Rightarrow>
          (case makedirs output_dir of
             Inl e \<Rightarrow> Inl e
           | Inr out \<Rightarrow> map_sum id Some (extract_entries file entries out)))"

section \<open>PkPac.py: the packer\<close>

text \<open>
  The input directory as \<^verbatim>\<open>os.listdir\<close> enumerates it: each member is a regular file with
  its bytes or something else (a subdirectory).
\<close>

type_synonym directory = "(string \<times> node) list"

record pk_entry =
  pk_name :: string
  pk_size :: nat
  pk_offset :: nat

text \<open>The loop of \<^verbatim>\<open>collect_files\<close>: only regular files become entries.\<close>

fun collect_loop :: "directory \<Rightarrow> nat \<Rightarrow> pk_entry list" where
  "collect_loop [] offset = []"
| "collect_loop ((filename, File data) # rest) offset =
     \<lparr>pk_name = filename, pk_size = length data, pk_offset = offset\<rparr>
       # collect_loop rest (offset + length data)"
| "collect_loop ((filename, Dir) # rest) offset = collect_loop rest offset"

text \<open>\<^verbatim>\<open>collect_files\<close>: the first offset counts every member of the listing.\<close>

definition collect_files :: "directory \<Rightarrow> pk_entry list" where
  "collect_files input_dir = collect_loop input_dir (0x3FE + length input_dir * (0x20 + 8))"

text \<open>The index loop of \<^verbatim>\<open>write_archive\<close> (lines 43 to 46).\<close>

fun write_index :: "pk_entry list \<Rightarrow> py_error + byte list" where
  "write_index [] = Inr []"
| "write_index (e # rest) =
     (case ascii_encode (pk_name e) of
        Inl err \<Rightarrow> Inl err
      | Inr name_bytes \<Rightarrow>
          (case pack_u32_pair (pk_size e) (pk_offset e) of
             Inl err \<Rightarrow> Inl err
           | Inr size_offset \<Rightarrow>
               (case write_index rest of
                  Inl err \<Rightarrow> Inl err
                | Inr out \<Rightarrow> Inr (ljust_nul name_bytes 0x20 @ size_offset @ out))))"

text \<open>Lines 54 to 56: the extension test of the packer and the call of the cipher.\<close>

definition payload :: "string \<Rightarrow> byte list \<Rightarrow> py_error + byte list" where
  "payload nm data =
     (if lower (split_last nm) \<notin> set [''jpg'', ''png'', ''bmp'', ''wav'', ''mp3'']
         \<and> length data > 16
      then encrypt_data data else Inr data)"

text \<open>
  The data loop of \<^verbatim>\<open>write_archive\<close> (lines 49 to 58): each entry's file is opened by
  name; a name that is missing or is no regular file raises \<^verbatim>\<open>OSError\<close>.
\<close>

fun write_data :: "directory \<Rightarrow> pk_entry list \<Rightarrow> py_error + byte list" where
  "write_data input_dir [] = Inr []"
| "write_data input_dir (e # rest) =
     (case map_of input_dir (pk_name e) of
        Some (File data) \<Rightarrow>
          (case payload (pk_name e) data of
             Inl err \<Rightarrow> Inl err
           | Inr d \<Rightarrow>
               (case write_data input_dir rest of
                  Inl err \<Rightarrow> Inl err
                | Inr out \<Rightarrow> Inr (d @ out)))
      | _ \<Rightarrow> Inl OSError)"

text \<open>\<^verbatim>\<open>write_archive\<close>: the bytes of the output file, in the order they are written.\<close>

definition write_archive :: "pk_entry list \<Rightarrow> directory \<Rightarrow> py_error + byte list" where
  "write_archive entries input_dir =
     (case pack_u32 (length entries) of
        Inl e \<Rightarrow> Inl e
      | Inr header \<Rightarrow>
          (case write_index entries of
             Inl e \<Rightarrow> Inl e
           | Inr index \<Rightarrow>
               (case write_data input_dir entries of
                  Inl e \<Rightarrow> Inl e
                | Inr body \<Rightarrow> Inr (header @ replicate (0x3FE - 4) 0 @ index @ body))))"

definition pack :: "directory \<Rightarrow> py_error + byte list" where
  "pack input_dir = write_archive (collect_files input_dir) input_dir"

section \<open>Auxiliary definitions for the statements\<close>

text \<open>
  What one loop iteration does to the four bytes of a word, in each direction, and the
  whole region as a sequence of such words. These are not part of the scripts; the lemmas
  below show that the loops compute them.
\<close>

definition dec_word :: "nat \<Rightarrow> byte list \<Rightarrow> byte list" where
  "dec_word s w =
     (case unpack_u32 (rotl8 s (hd w) # tl w) of
        Inr v \<Rightarrow> le32 (v XOR cipher_mask)
      | Inl e \<Rightarrow> w)"

definition enc_word :: "nat \<Rightarrow> byte list \<Rightarrow> byte list" where
  "enc_word s w =
     (case unpack_u32 w of
        Inr v \<Rightarrow> rotr8 s (hd (le32 (v XOR cipher_mask))) # tl (le32 (v XOR cipher_mask))
      | Inl e \<Rightarrow> w)"

fun dec_words :: "nat \<Rightarrow> byte list \<Rightarrow> byte list" where
  "dec_words s (b0 # b1 # b2 # b3 # rest) =
     dec_word s [b0, b1, b2, b3] @ dec_words (next_shift s) rest"
| "dec_words s bs = bs"

fun enc_words :: "nat \<Rightarrow> byte list \<Rightarrow> byte list" where
  "enc_words s (b0 # b1 # b2 # b3 # rest) =
     enc_word s [b0, b1, b2, b3] @ enc_words (next_shift s) rest"
| "enc_words s bs = bs"

text \<open>The loop positions of \<open>n\<close> words from position \<open>i\<close>.\<close>

definition word_indices :: "nat \<Rightarrow> nat \<Rightarrow> nat list" where
  "word_indices i n = map (\<lambda>k. i + k * 4) [0..<n]"

text \<open>The shift in force at word index \<open>k\<close>: the start value 4 after \<open>k\<close> updates.\<close>

definition shift_at :: "nat \<Rightarrow> nat" where
  "shift_at k = (next_shift ^^ k) 4"

text \<open>
  The 32-bit field at a position of the file, and the self-consistency test of one
  candidate layout as the openers compute it: the count read at \<open>header\<close> is sane and the
  offset stored in the first index record is \<open>index_offset + count * (name_length + 8)\<close>.
\<close>

definition u32_at :: "byte list \<Rightarrow> nat \<Rightarrow> py_error + nat" where
  "u32_at file pos = unpack_u32 (file_read file pos 4)"

definition accepts :: "byte list \<Rightarrow> nat \<Rightarrow> nat \<Rightarrow> nat \<Rightarrow> bool" where
  "accepts file header index_offset name_length =
     (case u32_at file header of
        Inl e \<Rightarrow> False
      | Inr count \<Rightarrow>
          is_sane_count count \<and>
          u32_at file (index_offset + name_length + 4)
            = Inr (index_offset + count * (name_length + 8)))"

text \<open>
  Two sample files for the probe: a classic-wide archive of one entry whose name slot
  happens to hold, at the place of the narrow layout's first offset field, the value the
  narrow layout expects; and 0x82C zero bytes, whose counts are all 0.
\<close>

definition sample_wide :: "byte list" where
  "sample_wide =
     [1, 0, 0, 0] @ replicate 1018 0 @
     replicate 20 0x41 @ [0x16, 0x04, 0, 0] @ replicate 8 0 @
     [0, 0, 0, 0] @ [0x26, 0x04, 0, 0]"


text \<open>A tagged payload with two words after byte 16.\<close>

definition sample_tagged :: "byte list" where
  "sample_tagged = 0x24 # replicate 15 0 @ [1, 2, 3, 4, 5, 6, 7, 8]"

text \<open>
  The bytes of an ASCII name and the index record the packer writes for an entry: the
  name, the padding up to the 32-byte slot (none for a longer name), the two fields.
\<close>

definition name_bytes :: "string \<Rightarrow> byte list" where
  "name_bytes s = map (\<lambda>c. of_nat (of_char c)) s"

definition is_ascii :: "string \<Rightarrow> bool" where
  "is_ascii s = list_all (\<lambda>c. (of_char c :: nat) < 128) s"

definition index_record :: "pk_entry \<Rightarrow> byte list" where
  "index_record e =
     name_bytes (pk_name e) @ replicate (0x20 - length (pk_name e)) 0 @
     le32 (pk_size e) @ le32 (pk_offset e)"

text \<open>A sequence of named buffers as an input directory that holds only regular files.\<close>

definition as_directory :: "(string \<times> byte list) list \<Rightarrow> directory" where
  "as_directory bufs = map (\<lambda>(nm, data). (nm, File data)) bufs"

text \<open>
  Building an archive from named buffers and extracting every entry from it into a new
  output directory.
\<close>

definition roundtrip :: "(string \<times> byte list) list \<Rightarrow> py_error + (string \<rightharpoonup> node) option" where
  "roundtrip bufs =
     (case pack (as_directory bufs) of
        Inl e \<Rightarrow> Inl e
      | Inr archive \<Rightarrow> extract_archive archive Absent)"

text \<open>The bytes the packer stores for a buffer, when it stores any.\<close>

definition stored_payload :: "string \<times> byte list \<Rightarrow> byte list" where
  "stored_payload b = (case payload (fst b) (snd b) of Inl e \<Rightarrow> [] | Inr p \<Rightarrow> p)"

text \<open>
  A file name that survives the index: the name of a directory member (not empty, not
  \<open>.\<close> or \<open>..\<close>, no separator, no NUL), ASCII, at most 32 characters.
\<close>

definition valid_name :: "string \<Rightarrow> bool" where
  "valid_name nm = (is_plain_name nm \<and> is_ascii nm \<and> length nm \<le> 0x20)"


text \<open>
  A buffer that packer and extractor treat alike: either neither runs the cipher loop
  on it (fewer than 20 bytes, or a first byte other than \<open>0x24\<close>, or an extension in the
  packer's list together with a kind image or audio), or both do (extension outside the
  packer's list, kind unknown) and the region from byte 16 is a whole number of words.
\<close>

definition cipher_agrees :: "string \<times> byte list \<Rightarrow> bool" where
  "cipher_agrees b =
     (length (snd b) < 20 \<or> hd (snd b) \<noteq> 0x24 \<or>
      (lower (split_last (fst b)) \<notin> set [''jpg'', ''png'', ''bmp'', ''wav'', ''mp3''] \<and>
       determine_type (fst b) = Unknown \<and> 4 dvd (length (snd b) - 16)) \<or>
      (lower (split_last (fst b)) \<in> set [''jpg'', ''png'', ''bmp'', ''wav'', ''mp3''] \<and>
       determine_type (fst b) \<noteq> Unknown))"

text \<open>The reader's entry for an entry of the packer.\<close>

definition to_entry :: "pk_entry \<Rightarrow> entry" where
  "to_entry e = mk_entry (pk_name e) (pk_size e) (pk_offset e)"

text \<open>Sample inputs: a name of 33 characters, and a buffer the two extension tables split.\<close>

definition sample_long :: "pk_entry" where
  "sample_long = \<lparr>pk_name = replicate 33 CHR ''a'', pk_size = 0, pk_offset = 0\<rparr>"

definition sample_jpg :: "(string \<times> byte list) list" where
  "sample_jpg = [(''x.jpg'', 0x24 # replicate 19 0)]"

definition sample_bufs :: "(string \<times> byte list) list" where
  "sample_bufs = [(''a.dat'', 0x24 # replicate 19 0), (''b.wav'', [1, 2, 3])]"

section \<open>Bytes and words\<close>

lemma unat_byte_lt: "unat (b :: byte) < 256"
  using unsigned_less [of b] by simp

lemma byte_256: "(256 :: byte) = 0"
  using word_of_nat_eq_0_iff [where 'a=8, of 256] by simp

lemma unpack_u32_le32: 
  assumes "v < 2 ^ 32" shows "unpack_u32 (le32 v) = Inr v"
proof -
  define q1 where "q1 = v div 256"
  define q2 where "q2 = q1 div 256"
  define q3 where "q3 = q2 div 256"
  have e2: "v div 65536 = q2" unfolding q2_def q1_def by (simp add: div_mult2_eq)
  have e3: "v div 16777216 = q3" unfolding q3_def q2_def q1_def by (simp add: div_mult2_eq)
  have s3: "q3 < 256" using assms unfolding e3 [symmetric] by simp
  have v0: "v = v mod 256 + 256 * q1" unfolding q1_def by simp
  have v1: "q1 = q1 mod 256 + 256 * q2" unfolding q2_def by simp
  have v2: "q2 = q2 mod 256 + 256 * q3" unfolding q3_def by simp
  have "v mod 256 + 256 * (q1 mod 256) + 65536 * (q2 mod 256) + 16777216 * (q3 mod 256) = v"
    using v0 v1 v2 s3 by simp
  then show ?thesis
    by (simp add: le32_def unat_of_nat e2 e3 q1_def [symmetric])
qed

lemma byte_of_nat_256: "(of_nat (a + 256 * r) :: byte) = of_nat a"
  by (simp add: byte_256)

lemma le32_unpack: "le32 (unat b0 + 256 * unat b1 + 65536 * unat b2 + 16777216 * unat b3) = [b0, b1, b2, b3]"
proof -
  let ?n = "unat b0 + 256 * unat b1 + 65536 * unat b2 + 16777216 * unat b3"
  have b: "unat b0 < 256" "unat b1 < 256" "unat b2 < 256" "unat b3 < 256"
    by (rule unat_byte_lt)+
  have d1: "?n div 256 = unat b1 + 256 * (unat b2 + 256 * unat b3)" using b by simp
  have d2: "?n div 65536 = unat b2 + 256 * unat b3" using b by simp
  have d3: "?n div 16777216 = unat b3" using b by simp
  have e0: "(of_nat ?n :: byte) = b0"
    using byte_of_nat_256 [of "unat b0" "unat b1 + 256 * unat b2 + 65536 * unat b3"] by (simp add: algebra_simps)
  have e1: "(of_nat (unat b1 + 256 * (unat b2 + 256 * unat b3)) :: byte) = b1"
    using byte_of_nat_256 [of "unat b1" "unat b2 + 256 * unat b3"] by simp
  have e2: "(of_nat (unat b2 + 256 * unat b3) :: byte) = b2"
    using byte_of_nat_256 [of "unat b2" "unat b3"] by simp
  show ?thesis unfolding le32_def d1 d2 d3 e0 e1 e2 by simp
qed

lemma rotr8_rotl8: "s \<le> 7 \<Longrightarrow> rotr8 s (rotl8 s b) = b"
  unfolding rotl8_def rotr8_def
  apply (rule bit_word_eqI)
  apply (auto simp add: bit_simps)
  apply (rule ccontr)
  apply (subgoal_tac "8 + (n + s - 8) - s = n")
   apply simp
  apply arith
  done

lemma rotl8_rotr8: "s \<le> 7 \<Longrightarrow> rotl8 s (rotr8 s b) = b"
  unfolding rotl8_def rotr8_def
  apply (rule bit_word_eqI)
  apply (auto simp add: bit_simps)
  apply (rule ccontr)
  apply (subgoal_tac "s + (n - s) = n")
   apply simp
  apply arith
  done

lemma unpack_u32_bound: "unpack_u32 bs = Inr v \<Longrightarrow> v < 2 ^ 32"
proof (induction bs rule: unpack_u32.induct)
  case (1 b0 b1 b2 b3)
  have "unat b0 < 256" "unat b1 < 256" "unat b2 < 256" "unat b3 < 256"
    by (rule unat_byte_lt)+
  with 1 show ?case by auto
qed simp_all

lemma unpack_u32_len: "length bs \<noteq> 4 \<Longrightarrow> unpack_u32 bs = Inl StructError"
  by (induction bs rule: unpack_u32.induct) simp_all

lemma xor_mask_bound: "v < 2 ^ 32 \<Longrightarrow> v XOR cipher_mask < (2::nat) ^ 32"
proof -
  assume v: "v < 2 ^ 32"
  have m: "cipher_mask < 2 ^ 32" by (simp add: cipher_mask_def)
  have "int v XOR int cipher_mask < 2 ^ 32"
    by (rule XOR_upper) (use v m in simp_all)
  then have "int (v XOR cipher_mask) < 2 ^ 32" by (simp add: of_nat_xor_eq)
  then show ?thesis by simp 
qed

lemma xor_mask_twice: "(v XOR cipher_mask) XOR cipher_mask = (v::nat)"
  by (simp add: xor.assoc)

text \<open>
  The two rotations as Python computes them on the integer value of the byte, with the
  mask \<^verbatim>\<open>& 0xFF\<close> as a remainder modulo 256.
\<close>

lemma rotl8_python:
  "unat (rotl8 s b) = ((unat b * 2 ^ s) mod 256) OR (unat b div 2 ^ (8 - s))"
proof -
  have "unat b mod 256 = unat b" using unat_byte_lt [of b] by simp
  then show ?thesis
    unfolding rotl8_def unsigned_or_eq unsigned_push_bit_eq unsigned_drop_bit_eq
    by (simp add: take_bit_eq_mod push_bit_eq_mult drop_bit_eq_div)
qed

lemma rotr8_python:
  "unat (rotr8 s b) = (unat b div 2 ^ s) OR ((unat b * 2 ^ (8 - s)) mod 256)"
proof -
  have "unat b mod 256 = unat b" using unat_byte_lt [of b] by simp
  then show ?thesis
    unfolding rotr8_def unsigned_or_eq unsigned_push_bit_eq unsigned_drop_bit_eq
    by (simp add: take_bit_eq_mod push_bit_eq_mult drop_bit_eq_div)
qed

section \<open>The cipher loops, word by word\<close>

lemma word_indices_0: "word_indices i 0 = []"
  by (simp add: word_indices_def)

lemma word_indices_Suc: "word_indices i (Suc n) = i # word_indices (i + 4) n"
proof -
  have "[0..<Suc n] = 0 # map Suc [0..<n]"
    by (simp only: map_Suc_upt upt_conv_Cons [OF zero_less_Suc])
  then show ?thesis
    by (simp add: word_indices_def comp_def del: upt_Suc)
qed

lemma length_le32: "length (le32 v) = 4"
  by (simp add: le32_def)

lemma length_dec_word: "length (dec_word s [b0, b1, b2, b3]) = 4"
  by (simp add: dec_word_def length_le32)

lemma length_enc_word: "length (enc_word s [b0, b1, b2, b3]) = 4"
  by (simp add: enc_word_def le32_def)

lemma decrypt_step_word:
  "decrypt_step (length pre) s (pre @ b0 # b1 # b2 # b3 # post) =
     Inr (next_shift s, pre @ dec_word s [b0, b1, b2, b3] @ post)"
proof -
  let ?v = "unat (rotl8 s b0) + 256 * unat b1 + 65536 * unat b2 + 16777216 * unat b3"
  have u: "unpack_u32 [rotl8 s b0, b1, b2, b3] = Inr ?v" by simp
  have "?v XOR cipher_mask < 2 ^ 32"
    by (rule xor_mask_bound [OF unpack_u32_bound [OF u]])
  then show ?thesis
    by (simp add: decrypt_step_def py_slice_def pack_into_u32_def dec_word_def)
qed

lemma encrypt_step_word:
  "encrypt_step (length pre) s (pre @ b0 # b1 # b2 # b3 # post) =
     Inr (next_shift s, pre @ enc_word s [b0, b1, b2, b3] @ post)"
proof -
  let ?v = "unat b0 + 256 * unat b1 + 65536 * unat b2 + 16777216 * unat b3"
  have u: "unpack_u32 [b0, b1, b2, b3] = Inr ?v" by simp
  have "?v XOR cipher_mask < 2 ^ 32"
    by (rule xor_mask_bound [OF unpack_u32_bound [OF u]])
  then show ?thesis
    by (simp add: encrypt_step_def py_slice_def pack_into_u32_def enc_word_def le32_def)
qed

lemma list4_cases:
  assumes "length ws = 4 * Suc n"
  obtains b0 b1 b2 b3 rest where "ws = b0 # b1 # b2 # b3 # rest" "length rest = 4 * n"
proof -
  from assms obtain b0 r0 where "ws = b0 # r0" by (cases ws) auto
  moreover from assms this obtain b1 r1 where "r0 = b1 # r1" by (cases r0) auto
  moreover from assms calculation obtain b2 r2 where "r1 = b2 # r2" by (cases r1) auto
  moreover from assms calculation obtain b3 r3 where "r2 = b3 # r3" by (cases r2) auto
  ultimately show ?thesis using assms that by auto
qed

lemma decrypt_loop_words:
  "length ws = 4 * n \<Longrightarrow>
   decrypt_loop (word_indices (length pre) n) s (pre @ ws) = Inr (pre @ dec_words s ws)"
proof (induction n arbitrary: pre s ws)
  case 0
  then show ?case by (simp add: word_indices_0)
next
  case (Suc n)
  from Suc.prems obtain b0 b1 b2 b3 rest
    where ws: "ws = b0 # b1 # b2 # b3 # rest" and len: "length rest = 4 * n"
    by (rule list4_cases)
  have "decrypt_loop (word_indices (length (pre @ dec_word s [b0, b1, b2, b3])) n) (next_shift s)
          ((pre @ dec_word s [b0, b1, b2, b3]) @ rest)
        = Inr ((pre @ dec_word s [b0, b1, b2, b3]) @ dec_words (next_shift s) rest)"
    by (rule Suc.IH [OF len])
  then show ?case
    by (simp add: ws word_indices_Suc decrypt_step_word length_dec_word)
qed

lemma encrypt_loop_words:
  "length ws = 4 * n \<Longrightarrow>
   encrypt_loop (word_indices (length pre) n) s (pre @ ws) = Inr (pre @ enc_words s ws)"
proof (induction n arbitrary: pre s ws)
  case 0
  then show ?case by (simp add: word_indices_0)
next
  case (Suc n)
  from Suc.prems obtain b0 b1 b2 b3 rest
    where ws: "ws = b0 # b1 # b2 # b3 # rest" and len: "length rest = 4 * n"
    by (rule list4_cases)
  have "encrypt_loop (word_indices (length (pre @ enc_word s [b0, b1, b2, b3])) n) (next_shift s)
          ((pre @ enc_word s [b0, b1, b2, b3]) @ rest)
        = Inr ((pre @ enc_word s [b0, b1, b2, b3]) @ enc_words (next_shift s) rest)"
    by (rule Suc.IH [OF len])
  then show ?case
    by (simp add: ws word_indices_Suc encrypt_step_word length_enc_word)
qed

lemma next_shift_le: "next_shift s \<le> 7"
  by (simp add: next_shift_def)

lemma dec_enc_word: "s \<le> 7 \<Longrightarrow> dec_word s (enc_word s [b0, b1, b2, b3]) = [b0, b1, b2, b3]"
proof -
  assume s: "s \<le> 7"
  let ?v = "unat b0 + 256 * unat b1 + 65536 * unat b2 + 16777216 * unat b3"
  have u: "unpack_u32 [b0, b1, b2, b3] = Inr ?v" by simp
  have b: "?v XOR cipher_mask < 2 ^ 32"
    by (rule xor_mask_bound [OF unpack_u32_bound [OF u]])
  have l: "le32 (?v XOR cipher_mask) \<noteq> []" by (simp add: le32_def)
  have "dec_word s (enc_word s [b0, b1, b2, b3]) = le32 ((?v XOR cipher_mask) XOR cipher_mask)"
    using l by (simp add: dec_word_def enc_word_def rotl8_rotr8 [OF s] unpack_u32_le32 [OF b])
  then show ?thesis by (simp only: xor_mask_twice le32_unpack)
qed

lemma enc_dec_word: "s \<le> 7 \<Longrightarrow> enc_word s (dec_word s [b0, b1, b2, b3]) = [b0, b1, b2, b3]"
proof -
  assume s: "s \<le> 7"
  let ?v = "unat (rotl8 s b0) + 256 * unat b1 + 65536 * unat b2 + 16777216 * unat b3"
  have u: "unpack_u32 [rotl8 s b0, b1, b2, b3] = Inr ?v" by simp
  have b: "?v XOR cipher_mask < 2 ^ 32"
    by (rule xor_mask_bound [OF unpack_u32_bound [OF u]])
  have "enc_word s (dec_word s [b0, b1, b2, b3]) =
          rotr8 s (hd (le32 ((?v XOR cipher_mask) XOR cipher_mask))) # tl (le32 ((?v XOR cipher_mask) XOR cipher_mask))"
    by (simp add: dec_word_def enc_word_def unpack_u32_le32 [OF b])
  then show ?thesis by (simp add: xor_mask_twice le32_unpack rotr8_rotl8 [OF s] del: unpack_u32.simps)
qed

lemma length_dec_words: "length (dec_words s ws) = length ws"
  by (induction s ws rule: dec_words.induct) (simp_all add: length_dec_word)

lemma length_enc_words: "length (enc_words s ws) = length ws"
  by (induction s ws rule: enc_words.induct) (simp_all add: length_enc_word)

lemma enc_word_cons: "\<exists>c0 c1 c2 c3. enc_word s [b0, b1, b2, b3] = [c0, c1, c2, c3]"
  by (simp add: enc_word_def le32_def)

lemma dec_word_cons: "\<exists>c0 c1 c2 c3. dec_word s [b0, b1, b2, b3] = [c0, c1, c2, c3]"
  by (simp add: dec_word_def le32_def)

lemma dec_enc_words: "s \<le> 7 \<Longrightarrow> dec_words s (enc_words s ws) = ws"
proof (induction s ws rule: enc_words.induct)
  case (1 s b0 b1 b2 b3 rest)
  obtain c0 c1 c2 c3 where c: "enc_word s [b0, b1, b2, b3] = [c0, c1, c2, c3]"
    using enc_word_cons by blast
  have "dec_word s [c0, c1, c2, c3] = [b0, b1, b2, b3]"
    using dec_enc_word [OF "1.prems", of b0 b1 b2 b3] by (simp only: c)
  moreover have "dec_words (next_shift s) (enc_words (next_shift s) rest) = rest"
    by (rule "1.IH" [OF next_shift_le])
  ultimately show ?case by (simp add: c)
qed simp_all

lemma enc_dec_words: "s \<le> 7 \<Longrightarrow> enc_words s (dec_words s ws) = ws"
proof (induction s ws rule: dec_words.induct)
  case (1 s b0 b1 b2 b3 rest)
  obtain c0 c1 c2 c3 where c: "dec_word s [b0, b1, b2, b3] = [c0, c1, c2, c3]"
    using dec_word_cons by blast
  have "enc_word s [c0, c1, c2, c3] = [b0, b1, b2, b3]"
    using enc_dec_word [OF "1.prems", of b0 b1 b2 b3] by (simp only: c)
  moreover have "enc_words (next_shift s) (dec_words (next_shift s) rest) = rest"
    by (rule "1.IH" [OF next_shift_le])
  ultimately show ?case by (simp add: c)
qed simp_all

lemma py_range_words: "py_range 16 (16 + 4 * n) 4 = word_indices 16 n"
  by (simp add: py_range_def word_indices_def)

lemma py_range_words_rem:
  "0 < r \<Longrightarrow> r < 4 \<Longrightarrow> py_range 16 (16 + 4 * n + r) 4 = word_indices 16 (Suc n)"
proof -
  assume r: "0 < r" "r < 4"
  then have "(3 + (4 * n + r)) div 4 = Suc n" by simp
  then show ?thesis using r by (simp add: py_range_def word_indices_def)
qed

lemma aligned_split:
  assumes "16 \<le> length buf" "4 dvd (length buf - 16)"
  obtains n where "length (drop 16 buf) = 4 * n" "length buf = 16 + 4 * n" "length (take 16 buf) = 16"
proof -
  from assms(2) obtain n where "length buf - 16 = 4 * n" by (auto simp: dvd_def)
  with assms(1) have "length (drop 16 buf) = 4 * n" "length buf = 16 + 4 * n" "length (take 16 buf) = 16"
    by auto
  then show ?thesis by (rule that)
qed

lemma decrypt_data_aligned:
  assumes "16 \<le> length buf" "4 dvd (length buf - 16)"
  shows "decrypt_data buf = Inr (take 16 buf @ dec_words 4 (drop 16 buf))"
proof -
  from assms obtain n where n: "length (drop 16 buf) = 4 * n" "length buf = 16 + 4 * n"
    "length (take 16 buf) = 16" by (rule aligned_split)
  have "decrypt_loop (word_indices (length (take 16 buf)) n) 4 (take 16 buf @ drop 16 buf)
          = Inr (take 16 buf @ dec_words 4 (drop 16 buf))"
    by (rule decrypt_loop_words [OF n(1)])
  then have loop: "decrypt_loop (py_range 16 (length buf) 4) 4 buf
          = Inr (take 16 buf @ dec_words 4 (drop 16 buf))"
    by (simp add: n(2,3) py_range_words)
  show ?thesis
  proof (cases "n = 0")
    case True
    then show ?thesis using n by (simp add: decrypt_data_def)
  next
    case False
    then show ?thesis using loop n(2) by (simp add: decrypt_data_def)
  qed
qed

lemma encrypt_data_hd:
  "buf \<noteq> [] \<Longrightarrow> hd buf = 0x24 \<Longrightarrow>
   encrypt_data buf =
     (if (int (length buf) - 16) div 4 > 0 then encrypt_loop (py_range 16 (length buf) 4) 4 buf
      else Inr buf)"
  by (cases buf) (simp_all add: encrypt_data_def)

lemma encrypt_data_aligned:
  assumes "16 \<le> length buf" "4 dvd (length buf - 16)" "hd buf = 0x24"
  shows "encrypt_data buf = Inr (take 16 buf @ enc_words 4 (drop 16 buf))"
proof -
  from assms(1,2) obtain n where n: "length (drop 16 buf) = 4 * n" "length buf = 16 + 4 * n"
    "length (take 16 buf) = 16" by (rule aligned_split)
  have ne: "buf \<noteq> []" using assms(1) by auto
  have "encrypt_loop (word_indices (length (take 16 buf)) n) 4 (take 16 buf @ drop 16 buf)
          = Inr (take 16 buf @ enc_words 4 (drop 16 buf))"
    by (rule encrypt_loop_words [OF n(1)])
  then have loop: "encrypt_loop (py_range 16 (length buf) 4) 4 buf
          = Inr (take 16 buf @ enc_words 4 (drop 16 buf))"
    by (simp add: n(2,3) py_range_words)
  show ?thesis
  proof (cases "n = 0")
    case True
    then have "drop 16 buf = []" using n(1) by simp
    then have "take 16 buf @ enc_words 4 (drop 16 buf) = buf"
      by (metis append_take_drop_id enc_words.simps(2))
    moreover have "encrypt_data buf = Inr buf" 
      using True n(2) by (simp add: encrypt_data_hd [OF ne assms(3)])
    ultimately show ?thesis by simp
  next
    case False
    have "encrypt_data buf = encrypt_loop (py_range 16 (length buf) 4) 4 buf"
      using False n(2) by (simp add: encrypt_data_hd [OF ne assms(3)])
    then show ?thesis using loop by simp
  qed
qed

section \<open>The cipher is an involution on aligned payloads\<close>

text \<open>
  Claim C2. For every buffer whose first byte is \<open>0x24\<close>, whose length is at least 20 and
  whose length minus 16 is a multiple of 4, \<^verbatim>\<open>encrypt_data\<close> succeeds and the decode of
  \<^verbatim>\<open>open_entry\<close> returns the buffer from its result, and the decode succeeds and
  \<^verbatim>\<open>encrypt_data\<close> returns the buffer from its result.
\<close>

theorem cipher_involution:
  assumes "20 \<le> length buf" and "hd buf = 0x24" and "4 dvd (length buf - 16)"
  shows "(\<exists>e. encrypt_data buf = Inr e \<and> decrypt_data e = Inr buf) \<and>
         (\<exists>d. decrypt_data buf = Inr d \<and> encrypt_data d = Inr buf)"
proof -
  have len: "16 \<le> length buf" using assms(1) by simp
  let ?e = "take 16 buf @ enc_words 4 (drop 16 buf)"
  let ?d = "take 16 buf @ dec_words 4 (drop 16 buf)"
  have le: "length ?e = length buf" by (simp add: length_enc_words)
  have ld: "length ?d = length buf" by (simp add: length_dec_words)
  have te: "take 16 ?e = take 16 buf" "drop 16 ?e = enc_words 4 (drop 16 buf)"
    using len by simp_all
  have td: "take 16 ?d = take 16 buf" "drop 16 ?d = dec_words 4 (drop 16 buf)"
    using len by simp_all
  have hd_d: "hd ?d = 0x24" using assms(2) len by (cases buf) auto
  have "decrypt_data ?e = Inr (take 16 ?e @ dec_words 4 (drop 16 ?e))"
    by (rule decrypt_data_aligned) (simp_all only: le len assms(3))
  then have 1: "decrypt_data ?e = Inr buf"
    by (simp only: te dec_enc_words [of 4, simplified] append_take_drop_id)
  have "encrypt_data ?d = Inr (take 16 ?d @ enc_words 4 (drop 16 ?d))"
    by (rule encrypt_data_aligned) (simp_all only: ld len assms(3) hd_d)
  then have 2: "encrypt_data ?d = Inr buf"
    by (simp only: td enc_dec_words [of 4, simplified] append_take_drop_id)
  show ?thesis
    using 1 2 encrypt_data_aligned [OF len assms(3) assms(2)] decrypt_data_aligned [OF len assms(3)]
    by simp
qed

theorem cipher_involution_witness:
  "20 \<le> length (0x24 # replicate 19 (1::byte)) \<and> hd (0x24 # replicate 19 (1::byte)) = 0x24 \<and>
   4 dvd (length (0x24 # replicate 19 (1::byte)) - 16) \<and>
   (\<exists>e. encrypt_data (0x24 # replicate 19 1) = Inr e \<and> decrypt_data e = Inr (0x24 # replicate 19 1)) \<and>
   (\<exists>d. decrypt_data (0x24 # replicate 19 1) = Inr d \<and> encrypt_data d = Inr (0x24 # replicate 19 1))"
proof -
  let ?b = "0x24 # replicate 19 (1::byte)"
  have h1: "20 \<le> length ?b" by simp
  have h2: "hd ?b = 0x24" by simp
  have h3: "4 dvd (length ?b - 16)" by simp
  from cipher_involution [OF h1 h2 h3] h1 h2 h3 show ?thesis by blast
qed

section \<open>The shift schedule\<close>

lemma next_shift_mod: "s < 8 \<Longrightarrow> next_shift s = (s + 1) mod 8"
  by (cases "s = 7") (auto simp add: next_shift_def)

lemma shift_at_mod: "shift_at k = (4 + k) mod 8"
proof (induction k)
  case 0
  show ?case by (simp add: shift_at_def)
next
  case (Suc k)
  have "shift_at (Suc k) = next_shift (shift_at k)" by (simp add: shift_at_def)
  also have "\<dots> = ((4 + k) mod 8 + 1) mod 8" by (simp add: Suc.IH next_shift_mod)
  also have "\<dots> = (4 + Suc k) mod 8" by (simp add: mod_Suc_eq)
  finally show ?case .
qed

lemma shift_at_first_ten: "map shift_at [0..<10] = [4, 5, 6, 7, 0, 1, 2, 3, 4, 5]"
  by (simp add: shift_at_mod upt_rec [of _ "10"] upt_rec [of _ "numeral _"])

lemma funpow_next_shift: "(next_shift ^^ Suc k) s = (next_shift ^^ k) (next_shift s)"
  by (simp add: funpow_swap1)

lemma slice_dec_words:
  "4 * k + 4 \<le> length ws \<Longrightarrow>
   py_slice (dec_words s ws) (4 * k) (4 * k + 4) = dec_word ((next_shift ^^ k) s) (py_slice ws (4 * k) (4 * k + 4))"
proof (induction k arbitrary: s ws)
  case 0
  from 0 obtain b0 r0 where "ws = b0 # r0" by (cases ws) auto
  moreover from 0 this obtain b1 r1 where "r0 = b1 # r1" by (cases r0) auto
  moreover from 0 calculation obtain b2 r2 where "r1 = b2 # r2" by (cases r1) auto
  moreover from 0 calculation obtain b3 r3 where "r2 = b3 # r3" by (cases r2) auto
  ultimately have ws: "ws = b0 # b1 # b2 # b3 # r3" by simp
  show ?case by (simp add: ws py_slice_def length_dec_word)
next
  case (Suc k)
  from Suc.prems obtain b0 r0 where "ws = b0 # r0" by (cases ws) auto
  moreover from Suc.prems this obtain b1 r1 where "r0 = b1 # r1" by (cases r0) auto
  moreover from Suc.prems calculation obtain b2 r2 where "r1 = b2 # r2" by (cases r1) auto
  moreover from Suc.prems calculation obtain b3 r3 where "r2 = b3 # r3" by (cases r2) auto
  ultimately have ws: "ws = b0 # b1 # b2 # b3 # r3" by simp
  have len: "4 * k + 4 \<le> length r3" using Suc.prems ws by simp
  have "py_slice (dec_words s ws) (4 * Suc k) (4 * Suc k + 4)
        = py_slice (dec_words (next_shift s) r3) (4 * k) (4 * k + 4)"
    by (simp add: ws py_slice_def length_dec_word)
  also have "\<dots> = dec_word ((next_shift ^^ k) (next_shift s)) (py_slice r3 (4 * k) (4 * k + 4))"
    by (rule Suc.IH [OF len])
  also have "py_slice r3 (4 * k) (4 * k + 4) = py_slice ws (4 * Suc k) (4 * Suc k + 4)"
  proof -
    have "drop (4 + 4 * k) ([b0, b1, b2, b3] @ r3) = drop (4 * k) r3" by (simp only: drop_append) simp
    then show ?thesis by (simp add: ws py_slice_def)
  qed
  finally show ?case by (simp only: funpow_next_shift)
qed

lemma slice_enc_words:
  "4 * k + 4 \<le> length ws \<Longrightarrow>
   py_slice (enc_words s ws) (4 * k) (4 * k + 4) = enc_word ((next_shift ^^ k) s) (py_slice ws (4 * k) (4 * k + 4))"
proof (induction k arbitrary: s ws)
  case 0
  from 0 obtain b0 r0 where "ws = b0 # r0" by (cases ws) auto
  moreover from 0 this obtain b1 r1 where "r0 = b1 # r1" by (cases r0) auto
  moreover from 0 calculation obtain b2 r2 where "r1 = b2 # r2" by (cases r1) auto
  moreover from 0 calculation obtain b3 r3 where "r2 = b3 # r3" by (cases r2) auto
  ultimately have ws: "ws = b0 # b1 # b2 # b3 # r3" by simp
  show ?case by (simp add: ws py_slice_def length_enc_word)
next
  case (Suc k)
  from Suc.prems obtain b0 r0 where "ws = b0 # r0" by (cases ws) auto
  moreover from Suc.prems this obtain b1 r1 where "r0 = b1 # r1" by (cases r0) auto
  moreover from Suc.prems calculation obtain b2 r2 where "r1 = b2 # r2" by (cases r1) auto
  moreover from Suc.prems calculation obtain b3 r3 where "r2 = b3 # r3" by (cases r2) auto
  ultimately have ws: "ws = b0 # b1 # b2 # b3 # r3" by simp
  have len: "4 * k + 4 \<le> length r3" using Suc.prems ws by simp
  have "py_slice (enc_words s ws) (4 * Suc k) (4 * Suc k + 4)
        = py_slice (enc_words (next_shift s) r3) (4 * k) (4 * k + 4)"
    by (simp add: ws py_slice_def length_enc_word)
  also have "\<dots> = enc_word ((next_shift ^^ k) (next_shift s)) (py_slice r3 (4 * k) (4 * k + 4))"
    by (rule Suc.IH [OF len])
  also have "py_slice r3 (4 * k) (4 * k + 4) = py_slice ws (4 * Suc k) (4 * Suc k + 4)"
  proof -
    have "drop (4 + 4 * k) ([b0, b1, b2, b3] @ r3) = drop (4 * k) r3" by (simp only: drop_append) simp
    then show ?thesis by (simp add: ws py_slice_def)
  qed
  finally show ?case by (simp only: funpow_next_shift)
qed

lemma dec_word_bytes:
  "dec_word s [b0, b1, b2, b3] =
     le32 ((unat (rotl8 s b0) + 256 * unat b1 + 65536 * unat b2 + 16777216 * unat b3)
           XOR cipher_mask)"
  by (simp add: dec_word_def)

lemma enc_word_bytes:
  "enc_word s [b0, b1, b2, b3] =
     rotr8 s (hd (le32 ((unat b0 + 256 * unat b1 + 65536 * unat b2 + 16777216 * unat b3)
                        XOR cipher_mask)))
     # tl (le32 ((unat b0 + 256 * unat b1 + 65536 * unat b2 + 16777216 * unat b3)
               XOR cipher_mask))"
  by (simp add: enc_word_def)

text \<open>
  Claim C8. \<^verbatim>\<open>open_entry\<close>'s decode (\<open>decrypt_data\<close>) and \<^verbatim>\<open>encrypt_data\<close> both start the
  shift at 4 for the word at byte 16 and step it with \<open>next_shift\<close> (increment, reset to 0
  above 7), so the shift at word index \<open>k\<close> is \<open>shift_at k\<close>: the first ten values are
  4, 5, 6, 7, 0, 1, 2, 3, 4, 5, the sequence has period 8 and stays within 0 to 7. On a
  tagged buffer of \<open>n\<close> whole words after byte 16, both functions return, leave the first
  16 bytes alone and turn the word at byte position \<open>16 + 4 * k\<close> into the decoded,
  respectively encoded, word for the shift \<open>shift_at k\<close>: the decode rotates the first
  byte left by that shift and then applies the mask, the encode applies the mask and then
  rotates the first byte right by that shift. The two schedules are the same function of
  the word index.
\<close>

theorem shift_schedule:
  assumes "length buf = 16 + 4 * n" and "hd buf = 0x24"
  shows "shift_at 0 = 4 \<and>
         (\<forall>k. shift_at (Suc k) = (if shift_at k + 1 > 7 then 0 else shift_at k + 1)) \<and>
         map shift_at [0..<10] = [4, 5, 6, 7, 0, 1, 2, 3, 4, 5] \<and>
         (\<forall>k. shift_at (k + 8) = shift_at k) \<and>
         (\<forall>k. shift_at k \<le> 7) \<and>
         (\<exists>d e. decrypt_data buf = Inr d \<and> encrypt_data buf = Inr e \<and>
                length d = length buf \<and> length e = length buf \<and>
                take 16 d = take 16 buf \<and> take 16 e = take 16 buf \<and>
                (\<forall>k<n. py_slice d (16 + 4 * k) (16 + 4 * k + 4) =
                          dec_word (shift_at k) (py_slice buf (16 + 4 * k) (16 + 4 * k + 4)) \<and>
                        py_slice e (16 + 4 * k) (16 + 4 * k + 4) =
                          enc_word (shift_at k) (py_slice buf (16 + 4 * k) (16 + 4 * k + 4)))) \<and>
         (\<forall>s b0 b1 b2 b3.
            dec_word s [b0, b1, b2, b3] =
              le32 ((unat (rotl8 s b0) + 256 * unat b1 + 65536 * unat b2 + 16777216 * unat b3)
                    XOR cipher_mask) \<and>
            enc_word s [b0, b1, b2, b3] =
              rotr8 s (hd (le32 ((unat b0 + 256 * unat b1 + 65536 * unat b2 + 16777216 * unat b3)
                                 XOR cipher_mask)))
              # tl (le32 ((unat b0 + 256 * unat b1 + 65536 * unat b2 + 16777216 * unat b3)
                        XOR cipher_mask)))"
proof -
  have a: "shift_at 0 = 4" by (simp add: shift_at_def)
  have b: "\<forall>k. shift_at (Suc k) = (if shift_at k + 1 > 7 then 0 else shift_at k + 1)"
    by (simp add: shift_at_def next_shift_def)
  have c: "\<forall>k. shift_at (k + 8) = shift_at k" unfolding shift_at_mod by presburger
  have d: "\<forall>k. shift_at k \<le> 7" unfolding shift_at_mod by presburger
  have ge: "16 \<le> length buf" and al: "4 dvd (length buf - 16)" using assms(1) by simp_all
  have l16: "length (take 16 buf) = 16" and ld: "length (drop 16 buf) = 4 * n"
    using assms(1) by simp_all
  let ?d = "take 16 buf @ dec_words 4 (drop 16 buf)"
  let ?e = "take 16 buf @ enc_words 4 (drop 16 buf)"
  have dd: "decrypt_data buf = Inr ?d" by (rule decrypt_data_aligned [OF ge al])
  have ee: "encrypt_data buf = Inr ?e" by (rule encrypt_data_aligned [OF ge al assms(2)])
  have len: "length ?d = length buf" "length ?e = length buf"
    by (simp_all add: length_dec_words length_enc_words)
  have tk: "take 16 ?d = take 16 buf" "take 16 ?e = take 16 buf"
    using l16 by simp_all
  have w: "\<forall>k<n. py_slice ?d (16 + 4 * k) (16 + 4 * k + 4) =
                   dec_word (shift_at k) (py_slice buf (16 + 4 * k) (16 + 4 * k + 4)) \<and>
                 py_slice ?e (16 + 4 * k) (16 + 4 * k + 4) =
                   enc_word (shift_at k) (py_slice buf (16 + 4 * k) (16 + 4 * k + 4))"
  proof (intro allI impI)
    fix k assume k: "k < n"
    then have len: "4 * k + 4 \<le> length (drop 16 buf)" using ld by simp
    have sl: "\<And>xs. length xs = length (drop 16 buf) \<Longrightarrow>
                py_slice (take 16 buf @ xs) (16 + 4 * k) (16 + 4 * k + 4) = py_slice xs (4 * k) (4 * k + 4)"
      using l16 by (simp add: py_slice_def)
    have sb: "py_slice buf (16 + 4 * k) (16 + 4 * k + 4) = py_slice (drop 16 buf) (4 * k) (4 * k + 4)"
      by (simp add: py_slice_def add.commute)
    show "py_slice ?d (16 + 4 * k) (16 + 4 * k + 4) =
            dec_word (shift_at k) (py_slice buf (16 + 4 * k) (16 + 4 * k + 4)) \<and>
          py_slice ?e (16 + 4 * k) (16 + 4 * k + 4) =
            enc_word (shift_at k) (py_slice buf (16 + 4 * k) (16 + 4 * k + 4))"
      by (simp only: sl [OF length_dec_words] sl [OF length_enc_words] sb
            slice_dec_words [OF len] slice_enc_words [OF len] shift_at_def simp_thms)
  qed
  have x: "\<exists>d e. decrypt_data buf = Inr d \<and> encrypt_data buf = Inr e \<and>
                length d = length buf \<and> length e = length buf \<and>
                take 16 d = take 16 buf \<and> take 16 e = take 16 buf \<and>
                (\<forall>k<n. py_slice d (16 + 4 * k) (16 + 4 * k + 4) =
                          dec_word (shift_at k) (py_slice buf (16 + 4 * k) (16 + 4 * k + 4)) \<and>
                        py_slice e (16 + 4 * k) (16 + 4 * k + 4) =
                          enc_word (shift_at k) (py_slice buf (16 + 4 * k) (16 + 4 * k + 4)))"
    using dd ee len tk w by blast
  show ?thesis using a b shift_at_first_ten c d x dec_word_bytes enc_word_bytes by blast
qed

lemma sample_tagged_words:
  "py_slice sample_tagged 16 20 = [1, 2, 3, 4]" "py_slice sample_tagged 20 24 = [5, 6, 7, 8]"
  by (simp_all add: sample_tagged_def py_slice_def)

lemma sample_tagged_dec:
  "dec_word 4 [1, 2, 3, 4] = [0x8D, 0x87, 0xD6, 0xF3]"
  "dec_word 5 [5, 6, 7, 8] = [0x3D, 0x83, 0xD2, 0xFF]"
  by (simp_all add: dec_word_def rotl8_def cipher_mask_def le32_def)

lemma sample_tagged_enc:
  "enc_word 4 [1, 2, 3, 4] = [0xC9, 0x87, 0xD6, 0xF3]"
  "enc_word 5 [5, 6, 7, 8] = [0xC4, 0x83, 0xD2, 0xFF]"
  by (simp_all add: enc_word_def rotr8_def cipher_mask_def le32_def)

lemma three_parts:
  assumes "length d = 24"
  shows "d = take 16 d @ py_slice d 16 20 @ py_slice d 20 24"
proof -
  have a: "py_slice d 16 20 = take 4 (drop 16 d)" by (simp add: py_slice_def)
  have b: "py_slice d 20 24 = drop 20 d" using assms by (simp add: py_slice_def)
  have "take 4 (drop 16 d) @ drop 20 d = drop 16 d"
    using append_take_drop_id [of 4 "drop 16 d"] by simp
  then show ?thesis by (simp add: a b)
qed

theorem shift_schedule_witness:
  "length sample_tagged = 16 + 4 * 2 \<and> hd sample_tagged = 0x24 \<and>
   map shift_at [0..<10] = [4, 5, 6, 7, 0, 1, 2, 3, 4, 5] \<and>
   decrypt_data sample_tagged =
     Inr (take 16 sample_tagged @ [0x8D, 0x87, 0xD6, 0xF3] @ [0x3D, 0x83, 0xD2, 0xFF]) \<and>
   encrypt_data sample_tagged =
     Inr (take 16 sample_tagged @ [0xC9, 0x87, 0xD6, 0xF3] @ [0xC4, 0x83, 0xD2, 0xFF])"
proof -
  have h: "length sample_tagged = 16 + 4 * 2" "hd sample_tagged = 0x24"
    by (simp_all add: sample_tagged_def)
  note t = shift_schedule [OF h]
  note s = t [THEN conjunct2, THEN conjunct2, THEN conjunct1]
  from t [THEN conjunct2, THEN conjunct2, THEN conjunct2, THEN conjunct2, THEN conjunct2,
          THEN conjunct1]
  obtain d e where
    d: "decrypt_data sample_tagged = Inr d" and e: "encrypt_data sample_tagged = Inr e"
    and ld: "length d = length sample_tagged" and le: "length e = length sample_tagged"
    and td: "take 16 d = take 16 sample_tagged" and te: "take 16 e = take 16 sample_tagged"
    and w: "\<forall>k<2. py_slice d (16 + 4 * k) (16 + 4 * k + 4) =
                     dec_word (shift_at k) (py_slice sample_tagged (16 + 4 * k) (16 + 4 * k + 4)) \<and>
                   py_slice e (16 + 4 * k) (16 + 4 * k + 4) =
                     enc_word (shift_at k) (py_slice sample_tagged (16 + 4 * k) (16 + 4 * k + 4))"
    by (elim exE conjE)
  have s0: "shift_at 0 = 4" and s1: "shift_at (Suc 0) = 5" by (simp_all add: shift_at_mod)
  from w [rule_format, of 0] have w0:
    "py_slice d 16 20 = [0x8D, 0x87, 0xD6, 0xF3]" "py_slice e 16 20 = [0xC9, 0x87, 0xD6, 0xF3]"
    by (simp_all add: s0 sample_tagged_words sample_tagged_dec sample_tagged_enc)
  from w [rule_format, of 1] have w1:
    "py_slice d 20 24 = [0x3D, 0x83, 0xD2, 0xFF]" "py_slice e 20 24 = [0xC4, 0x83, 0xD2, 0xFF]"
    by (simp_all add: s1 sample_tagged_words sample_tagged_dec sample_tagged_enc)
  have l24: "length d = 24" "length e = 24" using ld le h(1) by simp_all
  have "d = take 16 d @ py_slice d 16 20 @ py_slice d 20 24"
    and "e = take 16 e @ py_slice e 16 20 @ py_slice e 20 24"
    by (rule three_parts [OF l24(1)], rule three_parts [OF l24(2)])
  then have "d = take 16 sample_tagged @ [0x8D, 0x87, 0xD6, 0xF3] @ [0x3D, 0x83, 0xD2, 0xFF]"
    and "e = take 16 sample_tagged @ [0xC9, 0x87, 0xD6, 0xF3] @ [0xC4, 0x83, 0xD2, 0xFF]"
    by (simp_all only: td te w0 w1)
  then show ?thesis using h s d e by simp
qed

section \<open>Payloads that are not word-aligned\<close>

lemma decrypt_loop_short:
  "length ws = 4 * n + r \<Longrightarrow> 0 < r \<Longrightarrow> r < 4 \<Longrightarrow>
   decrypt_loop (word_indices (length pre) (Suc n)) s (pre @ ws) = Inl StructError"
proof (induction n arbitrary: pre s ws)
  case 0
  let ?a1 = "(pre @ ws)[length pre := rotl8 s ((pre @ ws) ! length pre)]"
  have "length (py_slice ?a1 (length pre) (length pre + 4)) = r"
    using 0 by (simp add: py_slice_def)
  then have "unpack_u32 (py_slice ?a1 (length pre) (length pre + 4)) = Inl StructError"
    using 0 by (intro unpack_u32_len) simp
  then show ?case
    using 0 by (simp add: word_indices_Suc word_indices_0 decrypt_step_def Let_def)
next
  case (Suc n)
  from Suc.prems(1) obtain b0 r0 where "ws = b0 # r0" by (cases ws) auto
  moreover from Suc.prems(1) this obtain b1 r1 where "r0 = b1 # r1" by (cases r0) auto
  moreover from Suc.prems(1) calculation obtain b2 r2 where "r1 = b2 # r2" by (cases r1) auto
  moreover from Suc.prems(1) calculation obtain b3 rest where "r2 = b3 # rest" by (cases r2) auto
  ultimately have ws: "ws = b0 # b1 # b2 # b3 # rest" by simp
  have len: "length rest = 4 * n + r" using Suc.prems(1) ws by simp
  have "decrypt_loop (word_indices (length (pre @ dec_word s [b0, b1, b2, b3])) (Suc n)) (next_shift s)
          ((pre @ dec_word s [b0, b1, b2, b3]) @ rest) = Inl StructError"
    by (rule Suc.IH [OF len Suc.prems(2,3)])
  then show ?case
    by (simp add: ws word_indices_Suc [of _ "Suc n"] decrypt_step_word length_dec_word)
qed

lemma decrypt_loop_aligned:
  assumes "16 \<le> length data" "4 dvd (length data - 16)"
  shows "decrypt_loop (py_range 16 (length data) 4) 4 data = Inr (take 16 data @ dec_words 4 (drop 16 data))"
proof -
  from assms(1,2) obtain n where n: "length (drop 16 data) = 4 * n" "length data = 16 + 4 * n"
    "length (take 16 data) = 16" by (rule aligned_split)
  have split: "take 16 data @ drop 16 data = data" by simp
  show ?thesis
    using decrypt_loop_words [OF n(1), of "take 16 data" 4]
    by (simp only: n(3) split n(2) py_range_words)
qed

lemma decrypt_loop_unaligned:
  assumes "\<not> 4 dvd (length data - 16)"
  shows "decrypt_loop (py_range 16 (length data) 4) 4 data = Inl StructError"
proof -
  have ge: "16 \<le> length data" using assms by (cases "16 \<le> length data") simp_all
  have l16: "length (take 16 data) = 16" using ge by simp
  have split: "take 16 data @ drop 16 data = data" by simp
  define m where "m = length data - 16"
  define n where "n = m div 4"
  define r where "r = m mod 4"
  have r: "0 < r" "r < 4" using assms by (auto simp: r_def m_def dvd_eq_mod_eq_0)
  have m: "m = 4 * n + r" by (simp add: n_def r_def)
  have ld: "length (drop 16 data) = 4 * n + r" using m by (simp add: m_def)
  have lt: "length data = 16 + 4 * n + r" using m ge by (simp add: m_def)
  show ?thesis
    using decrypt_loop_short [OF ld r, of "take 16 data" 4]
    by (simp only: l16 split lt py_range_words_rem [OF r])
qed

lemma decrypt_loop_total_iff:
  "(\<exists>r. decrypt_loop (py_range 16 (length data) 4) 4 data = Inr r) \<longleftrightarrow> 4 dvd (length data - 16)"
proof (cases "4 dvd (length data - 16)")
  case True
  show ?thesis
  proof (cases "16 \<le> length data")
    case ge: True
    show ?thesis using decrypt_loop_aligned [OF ge True] True by simp
  next
    case False
    then show ?thesis by (simp add: py_range_def)
  qed
next
  case False
  then show ?thesis using decrypt_loop_unaligned [OF False] by simp
qed

lemma decrypt_data_loop:
  "20 \<le> length data \<Longrightarrow> decrypt_data data = decrypt_loop (py_range 16 (length data) 4) 4 data"
  by (simp add: decrypt_data_def pos_imp_zdiv_pos_iff)

lemma decrypt_data_unaligned:
  assumes "20 \<le> length data" "\<not> 4 dvd (length data - 16)"
  shows "decrypt_data data = Inl StructError"
  by (simp only: decrypt_data_loop [OF assms(1)] decrypt_loop_unaligned [OF assms(2)])

lemma decrypt_data_small:
  "length data < 20 \<Longrightarrow> decrypt_data data = Inr data"
  by (simp add: decrypt_data_def pos_imp_zdiv_pos_iff)

lemma determine_type_dat: "determine_type ''a.dat'' = Unknown"
  by (simp add: determine_type_def splitext_ext_def rfind_def py_slice_def lower_def lower_char_def)

lemma open_entry_unknown:
  assumes "entry_type e = Unknown" and "16 < entry_size e"
    and "file_read f (entry_offset e) (entry_size e) = data" and "data \<noteq> []"
    and "hd data = 0x24"
  shows "open_entry f e = decrypt_data data"
proof -
  obtain b rest where d: "data = b # rest" using assms(4) by (cases data) auto
  then have "b = 0x24" using assms(5) by simp
  then show ?thesis using assms(1,2) by (simp add: open_entry_def assms(3) d Let_def)
qed

text \<open>
  Claim C10, as amended. Some payload meets the apply-condition of \<^verbatim>\<open>open_entry\<close> (kind
  unknown, declared size above 16, first byte \<open>0x24\<close>), has a length minus 16 that is no
  multiple of 4, and makes \<^verbatim>\<open>open_entry\<close> raise \<^verbatim>\<open>struct.error\<close> instead of returning.
  For every payload that meets the apply-condition: with fewer than 20 bytes the word
  count is 0, the guard \<^verbatim>\<open>count > 0\<close> skips the loop and the payload is returned
  unchanged, whatever its length; with 20 bytes or more the decode returns exactly when
  the length minus 16 is a multiple of 4, and raises \<^verbatim>\<open>struct.error\<close> otherwise.
\<close>

theorem decode_total_iff:
  "(\<exists>f (e::entry). entry_type e = Unknown \<and> 16 < entry_size e \<and>
        file_read f (entry_offset e) (entry_size e) \<noteq> [] \<and>
        hd (file_read f (entry_offset e) (entry_size e)) = 0x24 \<and>
        \<not> 4 dvd (length (file_read f (entry_offset e) (entry_size e)) - 16) \<and>
        open_entry f e = Inl StructError) \<and>
   (\<forall>f (e::entry) data.
        entry_type e = Unknown \<and> 16 < entry_size e \<and>
        file_read f (entry_offset e) (entry_size e) = data \<and> data \<noteq> [] \<and> hd data = 0x24 \<longrightarrow>
        (length data < 20 \<longrightarrow> open_entry f e = Inr data) \<and>
        (20 \<le> length data \<and> 4 dvd (length data - 16) \<longrightarrow>
           (\<exists>r. open_entry f e = Inr r \<and> length r = length data)) \<and>
        (20 \<le> length data \<and> \<not> 4 dvd (length data - 16) \<longrightarrow>
           open_entry f e = Inl StructError))"
proof (intro conjI allI impI)
  let ?file = "0x24 # replicate 20 (0::byte)"
  let ?e = "mk_entry ''a.dat'' 21 0"
  have rd: "file_read ?file (entry_offset ?e) (entry_size ?e) = ?file"
    by (simp add: file_read_def mk_entry_def)
  have un: "decrypt_data ?file = Inl StructError"
    by (rule decrypt_data_unaligned) simp_all
  have t: "entry_type ?e = Unknown" "16 < entry_size ?e"
    by (simp_all add: mk_entry_def determine_type_dat)
  have "open_entry ?file ?e = decrypt_data ?file"
    by (rule open_entry_unknown [OF t rd]) simp_all
  then have "open_entry ?file ?e = Inl StructError" using un by simp
  moreover have "file_read ?file (entry_offset ?e) (entry_size ?e) \<noteq> []"
    unfolding rd by simp
  moreover have "hd (file_read ?file (entry_offset ?e) (entry_size ?e)) = 0x24"
    unfolding rd by simp
  moreover have "\<not> 4 dvd (length (file_read ?file (entry_offset ?e) (entry_size ?e)) - 16)"
    unfolding rd by simp
  ultimately show "\<exists>f (e::entry). entry_type e = Unknown \<and> 16 < entry_size e \<and>
        file_read f (entry_offset e) (entry_size e) \<noteq> [] \<and>
        hd (file_read f (entry_offset e) (entry_size e)) = 0x24 \<and>
        \<not> 4 dvd (length (file_read f (entry_offset e) (entry_size e)) - 16) \<and>
        open_entry f e = Inl StructError"
    using t by blast
next
  fix f and e :: entry and data
  assume a: "entry_type e = Unknown \<and> 16 < entry_size e \<and>
        file_read f (entry_offset e) (entry_size e) = data \<and> data \<noteq> [] \<and> hd data = 0x24"
     and s: "length data < 20"
  then have "open_entry f e = decrypt_data data" by (intro open_entry_unknown) simp_all
  then show "open_entry f e = Inr data" using decrypt_data_small [OF s] by simp
next
  fix f and e :: entry and data
  assume a: "entry_type e = Unknown \<and> 16 < entry_size e \<and>
        file_read f (entry_offset e) (entry_size e) = data \<and> data \<noteq> [] \<and> hd data = 0x24"
     and l: "20 \<le> length data \<and> 4 dvd (length data - 16)"
  then have o: "open_entry f e = decrypt_data data" by (intro open_entry_unknown) simp_all
  have ge: "16 \<le> length data" using l by simp
  have "decrypt_data data = Inr (take 16 data @ dec_words 4 (drop 16 data))"
    using decrypt_data_aligned [OF ge] l by simp
  moreover have "length (take 16 data @ dec_words 4 (drop 16 data)) = length data"
    by (simp add: length_dec_words)
  ultimately show "\<exists>r. open_entry f e = Inr r \<and> length r = length data" using o by simp
next
  fix f and e :: entry and data
  assume a: "entry_type e = Unknown \<and> 16 < entry_size e \<and>
        file_read f (entry_offset e) (entry_size e) = data \<and> data \<noteq> [] \<and> hd data = 0x24"
     and l: "20 \<le> length data \<and> \<not> 4 dvd (length data - 16)"
  then have o: "open_entry f e = decrypt_data data" by (intro open_entry_unknown) simp_all
  show "open_entry f e = Inl StructError"
    using o decrypt_data_unaligned [of data] l by simp
qed

theorem decode_total_iff_witness:
  "entry_type (mk_entry ''a.dat'' 21 0) = Unknown \<and> 16 < entry_size (mk_entry ''a.dat'' 21 0) \<and>
   file_read (0x24 # replicate 20 0) 0 21 = 0x24 # replicate 20 0 \<and>
   hd (0x24 # replicate 20 (0::byte)) = 0x24 \<and>
   20 \<le> length (0x24 # replicate 20 (0::byte)) \<and>
   \<not> 4 dvd (length (0x24 # replicate 20 (0::byte)) - 16) \<and>
   open_entry (0x24 # replicate 20 0) (mk_entry ''a.dat'' 21 0) = Inl StructError"
proof -
  let ?file = "0x24 # replicate 20 (0::byte)"
  let ?e = "mk_entry ''a.dat'' 21 0"
  have rd: "file_read ?file (entry_offset ?e) (entry_size ?e) = ?file"
    by (simp add: file_read_def mk_entry_def)
  have t: "entry_type ?e = Unknown" "16 < entry_size ?e"
    by (simp_all add: mk_entry_def determine_type_dat)
  have h: "?file \<noteq> []" "hd ?file = 0x24" "20 \<le> length ?file" "\<not> 4 dvd (length ?file - 16)"
    by simp_all
  from decode_total_iff have
    "entry_type ?e = Unknown \<and> 16 < entry_size ?e \<and>
        file_read ?file (entry_offset ?e) (entry_size ?e) = ?file \<and> ?file \<noteq> [] \<and> hd ?file = 0x24 \<longrightarrow>
        (20 \<le> length ?file \<and> \<not> 4 dvd (length ?file - 16) \<longrightarrow>
           open_entry ?file ?e = Inl StructError)"
    by blast
  then have "open_entry ?file ?e = Inl StructError" using t rd h by blast
  moreover have "file_read ?file 0 21 = ?file" by (simp add: file_read_def)
  ultimately show ?thesis using t h by blast
qed

text \<open>
  The claim as stated fails at 17 bytes: the payload meets the apply-condition and its
  length minus 16 is 1, yet the decode returns it, unchanged.
\<close>

theorem decode_short_counterexample:
  "entry_type (mk_entry ''a.dat'' 17 0) = Unknown \<and> 16 < entry_size (mk_entry ''a.dat'' 17 0) \<and>
   hd (file_read (0x24 # replicate 16 0) 0 17) = 0x24 \<and>
   \<not> 4 dvd (length (file_read (0x24 # replicate 16 0) 0 17) - 16) \<and>
   open_entry (0x24 # replicate 16 0) (mk_entry ''a.dat'' 17 0) = Inr (0x24 # replicate 16 0)"
proof -
  let ?file = "0x24 # replicate 16 (0::byte)"
  let ?e = "mk_entry ''a.dat'' 17 0"
  have rd0: "file_read ?file 0 17 = ?file" by (simp add: file_read_def)
  have rd: "file_read ?file (entry_offset ?e) (entry_size ?e) = ?file"
    by (simp add: file_read_def mk_entry_def)
  have t: "entry_type ?e = Unknown" "16 < entry_size ?e"
    by (simp_all add: mk_entry_def determine_type_dat)
  have "open_entry ?file ?e = decrypt_data ?file"
    by (rule open_entry_unknown [OF t rd]) simp_all
  then have "open_entry ?file ?e = Inr ?file" by (simp add: decrypt_data_small)
  then show ?thesis using t by (simp add: rd0)
qed

section \<open>The kind classifier\<close>

lemma lower_char_not_upper: "(65::nat) \<le> of_char c \<Longrightarrow> (of_char c :: nat) \<le> 90 \<Longrightarrow> lower_char x \<noteq> c"
proof
  assume c: "(65::nat) \<le> of_char c" "(of_char c :: nat) \<le> 90" and eq: "lower_char x = c"
  show False
  proof (cases "(65::nat) \<le> of_char x \<and> (of_char x :: nat) \<le> 90")
    case True
    then have "c = char_of ((of_char x :: nat) + 32)" using eq by (simp add: lower_char_def)
    then have "(of_char c :: nat) = ((of_char x :: nat) + 32) mod 256" by simp
    with True c show False by simp
  next
    case False
    then have "x = c" using eq by (auto simp add: lower_char_def split: if_splits)
    with False c show False by simp
  qed
qed

lemma lower_ne_PIC: "lower s \<noteq> ''.PIC''"
proof
  assume "lower s = ''.PIC''"
  then have "CHR ''P'' \<in> set (map lower_char s)" by (simp add: lower_def)
  then obtain x where "lower_char x = CHR ''P''" by auto
  then show False using lower_char_not_upper [of "CHR ''P''" x] by simp
qed

lemma lower_ne_BPIC: "lower s \<noteq> ''.BPIC''"
proof
  assume "lower s = ''.BPIC''"
  then have "CHR ''P'' \<in> set (map lower_char s)" by (simp add: lower_def)
  then obtain x where "lower_char x = CHR ''P''" by auto
  then show False using lower_char_not_upper [of "CHR ''P''" x] by simp
qed

lemma determine_type_eq:
  "determine_type nm =
     (if lower (splitext_ext nm) = ''.pgd'' then Image
      else if lower (splitext_ext nm) = ''.wav'' \<or> lower (splitext_ext nm) = ''.ogg'' then Audio
      else Unknown)"
  by (simp add: determine_type_def Let_def lower_ne_PIC lower_ne_BPIC)

lemma splitext_ext_drop: "splitext_ext p = [] \<or> (\<exists>k. splitext_ext p = drop k p)"
  by (auto simp add: splitext_ext_def Let_def split: option.splits)

lemma lower_drop: "lower (drop k p) = drop k (lower p)"
  by (simp add: lower_def drop_map)

lemma drop_suffix_same_length:
  assumes "drop k (q @ zs) = ys" "length ys = length zs" "ys \<noteq> []"
  shows "ys = zs"
proof -
  have "length (drop k (q @ zs)) = length zs" using assms(1,2) by simp
  then have "length q + length zs - k = length zs" by simp
  moreover have "0 < length zs" using assms(2,3) by auto
  ultimately have "k = length q" by arith
  then show ?thesis using assms(1) by simp
qed

lemma ext_of_suffix:
  assumes "lower nm = q @ zs" "lower (splitext_ext nm) = ys" "length ys = length zs" "ys \<noteq> []"
  shows "ys = zs"
proof -
  from splitext_ext_drop [of nm] assms(2,4) obtain k where k: "splitext_ext nm = drop k nm"
    by (auto simp: lower_def)
  have "drop k (q @ zs) = ys" using assms(1,2) k by (simp add: lower_drop)
  then show ?thesis using assms(3,4) by (rule drop_suffix_same_length)
qed

lemma pic_unknown:
  assumes "(\<exists>q. lower nm = q @ ''.pic'') \<or> (\<exists>q. lower nm = q @ ''.bpic'')"
  shows "determine_type nm = Unknown"
proof -
  from assms obtain q where q: "lower nm = q @ ''.pic'' \<or> lower nm = (q @ ''.'') @ ''bpic''"
    by auto
  have "lower (splitext_ext nm) \<noteq> ''.pgd''"
    using q ext_of_suffix [of nm q "''.pic''" "''.pgd''"] ext_of_suffix [of nm "q @ ''.''" "''bpic''" "''.pgd''"]
    by auto
  moreover have "lower (splitext_ext nm) \<noteq> ''.wav''"
    using q ext_of_suffix [of nm q "''.pic''" "''.wav''"] ext_of_suffix [of nm "q @ ''.''" "''bpic''" "''.wav''"]
    by auto
  moreover have "lower (splitext_ext nm) \<noteq> ''.ogg''"
    using q ext_of_suffix [of nm q "''.pic''" "''.ogg''"] ext_of_suffix [of nm "q @ ''.''" "''bpic''" "''.ogg''"]
    by auto
  ultimately show ?thesis by (simp add: determine_type_eq)
qed

text \<open>
  Claim C9. \<^verbatim>\<open>determine_type\<close> lowercases the extension before it looks it up in the two
  literal lists, so the kind is image exactly when the lowercased extension is \<open>.pgd\<close>
  (the members \<open>.BPIC\<close> and \<open>.PIC\<close> can never match), audio exactly when it is \<open>.wav\<close> or
  \<open>.ogg\<close>, and unknown otherwise. A name that ends in \<open>.pic\<close> or \<open>.bpic\<close> in any case is
  unknown, and \<^verbatim>\<open>open_entry\<close> on such an entry goes on to the size and first-byte tests
  and to the decode.
\<close>

theorem kind_classifier:
  "determine_type nm =
     (if lower (splitext_ext nm) = ''.pgd'' then Image
      else if lower (splitext_ext nm) = ''.wav'' \<or> lower (splitext_ext nm) = ''.ogg'' then Audio
      else Unknown) \<and>
   ((\<exists>q. lower nm = q @ ''.pic'') \<or> (\<exists>q. lower nm = q @ ''.bpic'') \<longrightarrow>
      determine_type nm = Unknown \<and>
      (\<forall>file sz off. open_entry file (mk_entry nm sz off) =
         (if sz \<le> 16 then Inr (file_read file off sz)
          else (case file_read file off sz of
                  [] \<Rightarrow> Inl IndexError
                | b # _ \<Rightarrow> if b \<noteq> 0x24 then Inr (file_read file off sz)
                           else decrypt_data (file_read file off sz)))))"
proof (intro conjI impI allI)
  show "determine_type nm =
     (if lower (splitext_ext nm) = ''.pgd'' then Image
      else if lower (splitext_ext nm) = ''.wav'' \<or> lower (splitext_ext nm) = ''.ogg'' then Audio
      else Unknown)"
    by (rule determine_type_eq)
next
  assume "(\<exists>q. lower nm = q @ ''.pic'') \<or> (\<exists>q. lower nm = q @ ''.bpic'')"
  then show "determine_type nm = Unknown" by (rule pic_unknown)
next
  fix f sz off
  assume "(\<exists>q. lower nm = q @ ''.pic'') \<or> (\<exists>q. lower nm = q @ ''.bpic'')"
  then have u: "determine_type nm = Unknown" by (rule pic_unknown)
  show "open_entry f (mk_entry nm sz off) =
         (if sz \<le> 16 then Inr (file_read f off sz)
          else (case file_read f off sz of
                  [] \<Rightarrow> Inl IndexError
                | b # _ \<Rightarrow> if b \<noteq> 0x24 then Inr (file_read f off sz)
                           else decrypt_data (file_read f off sz)))"
    by (simp add: open_entry_def mk_entry_def u Let_def)
qed

theorem kind_classifier_witness:
  "((\<exists>q. lower ''X.PIC'' = q @ ''.pic'') \<or> (\<exists>q. lower ''X.PIC'' = q @ ''.bpic'')) \<and>
   determine_type ''X.PIC'' = Unknown \<and>
   open_entry (0x24 # replicate 19 0) (mk_entry ''X.PIC'' 20 0) =
     decrypt_data (0x24 # replicate 19 0)"
proof -
  have "lower ''X.PIC'' = ''x'' @ ''.pic''" by code_simp
  then have h: "(\<exists>q. lower ''X.PIC'' = q @ ''.pic'') \<or> (\<exists>q. lower ''X.PIC'' = q @ ''.bpic'')"
    by blast
  have r: "file_read (0x24 # replicate 19 (0::byte)) 0 20 = 0x24 # replicate 19 0"
    by (simp add: file_read_def)
  from kind_classifier [of "''X.PIC''"] h
  have "determine_type ''X.PIC'' = Unknown"
    and "open_entry (0x24 # replicate 19 0) (mk_entry ''X.PIC'' 20 0) =
         (if (20::nat) \<le> 16 then Inr (file_read (0x24 # replicate 19 0) 0 20)
          else (case file_read (0x24 # replicate 19 0) 0 20 of
                  [] \<Rightarrow> Inl IndexError
                | b # _ \<Rightarrow> if b \<noteq> 0x24 then Inr (file_read (0x24 # replicate 19 0) 0 20)
                           else decrypt_data (file_read (0x24 # replicate 19 0) 0 20)))"
    by blast+
  then show ?thesis using h by (simp add: r)
qed

section \<open>Reading an entry\<close>

lemma decrypt_data_length: "decrypt_data data = Inr d \<Longrightarrow> length d = length data"
proof (cases "length data < 20")
  case True
  assume "decrypt_data data = Inr d"
  then show ?thesis using decrypt_data_small [OF True] by simp
next
  case False
  assume r: "decrypt_data data = Inr d"
  from False have ge: "20 \<le> length data" by simp
  have al: "4 dvd (length data - 16)"
    using r decrypt_data_unaligned [OF ge] by (cases "4 dvd (length data - 16)") simp_all
  have "16 \<le> length data" using ge by simp
  from decrypt_data_aligned [OF this al] r show ?thesis by (auto simp add: length_dec_words)
qed

lemma length_file_read: "length (file_read f pos n) = min n (length f - pos)"
  by (simp add: file_read_def)

text \<open>
  Claim C5, as amended. \<^verbatim>\<open>open_entry\<close> has no truncation check: it reads the bytes the
  file holds from \<open>entry_offset\<close>, at most \<open>entry_size\<close> of them, so exactly \<open>entry_size\<close>
  bytes when the file holds that many past the offset. Whatever it returns has
  \<open>min size (length - offset)\<close> bytes. An entry of kind image or audio, or of declared size
  at most 16, is returned as read, short or not; with a declared size above 16, kind
  unknown and nothing to read, the first-byte test raises \<^verbatim>\<open>IndexError\<close>.
\<close>

theorem open_entry_reads:
  "(entry_offset e + entry_size e \<le> length f \<longrightarrow>
      length (file_read f (entry_offset e) (entry_size e)) = entry_size e) \<and>
   (\<forall>d. open_entry f e = Inr d \<longrightarrow>
      length d = min (entry_size e) (length f - entry_offset e)) \<and>
   (entry_type e \<noteq> Unknown \<or> entry_size e \<le> 16 \<longrightarrow>
      open_entry f e = Inr (take (entry_size e) (drop (entry_offset e) f))) \<and>
   (entry_type e = Unknown \<and> 16 < entry_size e \<and> length f \<le> entry_offset e \<longrightarrow>
      open_entry f e = Inl IndexError)"
proof (intro conjI allI impI)
  assume "entry_offset e + entry_size e \<le> length f"
  then show "length (file_read f (entry_offset e) (entry_size e)) = entry_size e"
    by (simp add: length_file_read)
next
  fix d assume r: "open_entry f e = Inr d"
  let ?data = "file_read f (entry_offset e) (entry_size e)"
  have "d = ?data \<or> decrypt_data ?data = Inr d"
    using r by (auto simp add: open_entry_def Let_def split: if_splits list.splits)
  then have "length d = length ?data"
    using decrypt_data_length by auto
  then show "length d = min (entry_size e) (length f - entry_offset e)"
    by (simp add: length_file_read)
next
  assume "entry_type e \<noteq> Unknown \<or> entry_size e \<le> 16"
  then show "open_entry f e = Inr (take (entry_size e) (drop (entry_offset e) f))"
    by (cases "entry_type e") (auto simp add: open_entry_def Let_def file_read_def)
next
  assume "entry_type e = Unknown \<and> 16 < entry_size e \<and> length f \<le> entry_offset e"
  then show "open_entry f e = Inl IndexError"
    by (simp add: open_entry_def Let_def file_read_def)
qed

theorem open_entry_reads_witness:
  "entry_offset (mk_entry ''a.wav'' 2 1) + entry_size (mk_entry ''a.wav'' 2 1) \<le> length [1, 2, 3 :: byte] \<and>
   open_entry [1, 2, 3] (mk_entry ''a.wav'' 2 1) = Inr [2, 3] \<and>
   open_entry [1, 2, 3] (mk_entry ''a.dat'' 20 3) = Inl IndexError"
proof -
  have "entry_type (mk_entry ''a.wav'' 2 1) \<noteq> Unknown \<or> entry_size (mk_entry ''a.wav'' 2 1) \<le> 16"
    by (simp add: mk_entry_def)
  with open_entry_reads [of "mk_entry ''a.wav'' 2 1" "[1, 2, 3]"]
  have 1: "open_entry [1, 2, 3] (mk_entry ''a.wav'' 2 1) = Inr [2, 3]"
    by (simp add: mk_entry_def)
  have "entry_type (mk_entry ''a.dat'' 20 3) = Unknown \<and> 16 < entry_size (mk_entry ''a.dat'' 20 3)
        \<and> length [1, 2, 3 :: byte] \<le> entry_offset (mk_entry ''a.dat'' 20 3)"
    by (simp add: mk_entry_def determine_type_dat)
  with open_entry_reads [of "mk_entry ''a.dat'' 20 3" "[1, 2, 3]"]
  have 2: "open_entry [1, 2, 3] (mk_entry ''a.dat'' 20 3) = Inl IndexError"
    by blast
  show ?thesis using 1 2 by (simp add: mk_entry_def)
qed

text \<open>
  The claim as stated fails: a declared size of 4 at offset 0 of a 2-byte file is
  answered with the 2 bytes there are, not with an error.
\<close>

theorem truncated_read_counterexample:
  "length [1, 2 :: byte] - entry_offset (mk_entry ''a.dat'' 4 0) < entry_size (mk_entry ''a.dat'' 4 0) \<and>
   open_entry [1, 2] (mk_entry ''a.dat'' 4 0) = Inr [1, 2]"
  by (simp add: open_entry_def mk_entry_def file_read_def)

section \<open>The format probe\<close>




lemma read_index_length:
  "read_index f count io nl = Inr entries \<Longrightarrow> length entries = count"
proof (induction count arbitrary: io entries)
  case 0
  then show ?case by simp
next
  case (Suc count)
  then show ?case by (auto split: sum.splits prod.splits)
qed


lemma try_open_u32_at:
  "try_open f =
     (case u32_at f 0 of
        Inl e \<Rightarrow> Inl e
      | Inr count \<Rightarrow>
          if \<not> is_sane_count count then Inr None
          else (case u32_at f (0x3FE + 0x20 + 4) of
                  Inl e \<Rightarrow> Inl e
                | Inr first_offset \<Rightarrow>
                    if first_offset \<noteq> 0x3FE + count * (0x20 + 8) then
                      (case u32_at f (0x3FE + 0x10 + 4) of
                         Inl e \<Rightarrow> Inl e
                       | Inr first_offset2 \<Rightarrow>
                           if first_offset2 \<noteq> 0x3FE + count * (0x10 + 8) then Inr None
                           else map_sum id Some (read_index f count 0x3FE 0x10))
                    else map_sum id Some (read_index f count 0x3FE 0x20)))"
  unfolding try_open_def u32_at_def Let_def by (simp split: sum.splits)




text \<open>
  Claim C7. On a classic-wide archive (the count at offset 0 is sane and the offset stored
  in the first 40-byte record is \<open>0x3FE + count * 40\<close>) \<^verbatim>\<open>PacOpener.try_open\<close> decodes the
  index with 32-byte name slots, whatever the narrow and the tagged fields hold, and the
  opener loop stops at \<^verbatim>\<open>PacOpener\<close>: whenever the probe returns, it returns the
  \<open>count\<close> entries of the classic-wide index.
\<close>

theorem classic_wide_priority:
  assumes "u32_at f 0 = Inr count"
    and "is_sane_count count"
    and "u32_at f (0x3FE + 0x20 + 4) = Inr (0x3FE + count * (0x20 + 8))"
  shows "try_open f = map_sum id Some (read_index f count 0x3FE 0x20) \<and>
         find_opener f =
           (case read_index f count 0x3FE 0x20 of
              Inl e \<Rightarrow> Inl e
            | Inr entries \<Rightarrow> Inr (PacOpener, Some entries)) \<and>
         (\<forall>opener r. find_opener f = Inr (opener, r) \<longrightarrow>
            opener = PacOpener \<and>
            (\<exists>entries. r = Some entries \<and> length entries = count \<and>
               read_index f count 0x3FE 0x20 = Inr entries))"
proof -
  have t: "try_open f = map_sum id Some (read_index f count 0x3FE 0x20)"
    using assms by (simp add: try_open_u32_at)
  have pos: "0 < count" using assms(2) by (simp add: is_sane_count_def)
  have fo: "find_opener f =
           (case read_index f count 0x3FE 0x20 of
              Inl e \<Rightarrow> Inl e
            | Inr entries \<Rightarrow> Inr (PacOpener, Some entries))"
  proof (cases "read_index f count 0x3FE 0x20")
    case (Inl e)
    then show ?thesis by (simp add: find_opener_def t)
  next
    case (Inr entries)
    then have "entries \<noteq> []" using read_index_length [OF Inr] pos by auto
    then show ?thesis using Inr by (simp add: find_opener_def t truthy_def)
  qed
  have "\<forall>opener r. find_opener f = Inr (opener, r) \<longrightarrow>
            opener = PacOpener \<and>
            (\<exists>entries. r = Some entries \<and> length entries = count \<and>
               read_index f count 0x3FE 0x20 = Inr entries)"
    unfolding fo by (auto split: sum.splits dest: read_index_length)
  with t fo show ?thesis by blast
qed


lemma sample_wide_count: "u32_at sample_wide 0 = Inr 1"
  by (simp add: u32_at_def file_read_def sample_wide_def)

lemma sample_wide_first: "u32_at sample_wide (0x3FE + 0x20 + 4) = Inr (0x3FE + 1 * (0x20 + 8))"
  by (simp add: u32_at_def file_read_def sample_wide_def)

lemma sample_wide_narrow: "accepts sample_wide 0 0x3FE 0x10"
  by (simp add: accepts_def sample_wide_count is_sane_count_def)
     (simp add: u32_at_def file_read_def sample_wide_def)

lemma sample_wide_index: "\<exists>e. read_index sample_wide 1 0x3FE 0x20 = Inr [e]"
proof -
  have n: "file_read sample_wide 0x3FE 0x20 = replicate 20 0x41 @ [0x16, 0x04, 0, 0] @ replicate 8 0"
    by (simp add: file_read_def sample_wide_def)
  have a: "\<exists>s. ascii_decode (file_read sample_wide 0x3FE 0x20) = Inr s"
    unfolding n by (simp add: ascii_decode_def list_all_iff)
  have p: "unpack_u32_pair (file_read sample_wide (0x3FE + 0x20) 8) = Inr (0, 1062)"
    by (simp add: file_read_def sample_wide_def unpack_u32_pair_def)
  from a obtain s where s: "ascii_decode (file_read sample_wide 0x3FE 0x20) = Inr s" by blast
  have "read_index sample_wide (Suc 0) 0x3FE 0x20 = Inr [mk_entry (rstrip_nul s) 0 1062]"
    using s p by simp
  then show ?thesis by (simp del: read_index.simps)
qed

theorem classic_wide_priority_witness:
  "u32_at sample_wide 0 = Inr 1 \<and> is_sane_count 1 \<and>
   u32_at sample_wide (0x3FE + 0x20 + 4) = Inr (0x3FE + 1 * (0x20 + 8)) \<and>
   accepts sample_wide 0 0x3FE 0x10 \<and>
   (\<exists>e. read_index sample_wide 1 0x3FE 0x20 = Inr [e] \<and>
        try_open sample_wide = Inr (Some [e]) \<and>
        find_opener sample_wide = Inr (PacOpener, Some [e]))"
proof -
  have s: "is_sane_count 1" by (simp add: is_sane_count_def)
  from sample_wide_index obtain e where e: "read_index sample_wide 1 0x3FE 0x20 = Inr [e]"
    by blast
  note w = classic_wide_priority [OF sample_wide_count s sample_wide_first]
  have "try_open sample_wide = Inr (Some [e])"
    using w [THEN conjunct1] by (simp only: e map_sum.simps)
  moreover have "find_opener sample_wide = Inr (PacOpener, Some [e])"
    using w [THEN conjunct2, THEN conjunct1] by (simp only: e sum.case)
  ultimately have "try_open sample_wide = Inr (Some [e])"
    "find_opener sample_wide = Inr (PacOpener, Some [e])" by blast+
  then show ?thesis using sample_wide_count s sample_wide_first sample_wide_narrow e by blast
qed











lemma find_opener_wide:
  assumes "u32_at f 0 = Inr count"
    and "is_sane_count count"
    and "u32_at f (0x3FE + 0x20 + 4) = Inr (0x3FE + count * (0x20 + 8))"
    and "read_index f count 0x3FE 0x20 = Inr entries"
  shows "find_opener f = Inr (PacOpener, Some entries)"
proof -
  have t: "try_open f = Inr (Some entries)"
    using assms by (simp add: try_open_u32_at)
  have "0 < count" using assms(2) by (simp add: is_sane_count_def)
  then have "entries \<noteq> []" using read_index_length [OF assms(4)] by auto
  then show ?thesis by (simp add: find_opener_def t truthy_def)
qed







section \<open>The index the packer writes\<close>

lemma ascii_encode_ok: "is_ascii s \<Longrightarrow> ascii_encode s = Inr (name_bytes s)"
  by (simp add: ascii_encode_def is_ascii_def name_bytes_def)

lemma ascii_encode_Inr: "ascii_encode s = Inr bs \<Longrightarrow> is_ascii s \<and> bs = name_bytes s"
  by (auto simp add: ascii_encode_def is_ascii_def name_bytes_def split: if_splits)

lemma length_name_bytes: "length (name_bytes s) = length s"
  by (simp add: name_bytes_def)

lemma write_index_records:
  "write_index entries = Inr index \<Longrightarrow> index = concat (map index_record entries)"
proof (induction entries arbitrary: index)
  case Nil
  then show ?case by simp
next
  case (Cons e rest)
  from Cons.prems obtain nb so out where
    nb: "ascii_encode (pk_name e) = Inr nb" and so: "pack_u32_pair (pk_size e) (pk_offset e) = Inr so"
    and out: "write_index rest = Inr out" and idx: "index = ljust_nul nb 0x20 @ so @ out"
    by (auto split: sum.splits)
  from ascii_encode_Inr [OF nb] have nbe: "nb = name_bytes (pk_name e)" by simp
  from so have soe: "so = le32 (pk_size e) @ le32 (pk_offset e)"
    by (auto simp add: pack_u32_pair_def split: if_splits)
  have r: "ljust_nul nb 0x20 @ so = index_record e"
    by (simp add: nbe soe index_record_def ljust_nul_def length_name_bytes)
  from Cons.IH [OF out] have "out = concat (map index_record rest)" .
  then show ?case using r by (simp add: idx)
qed

lemma write_index_ok:
  assumes "\<forall>e \<in> set entries. is_ascii (pk_name e) \<and> pk_size e < 2 ^ 32 \<and> pk_offset e < 2 ^ 32"
  shows "write_index entries = Inr (concat (map index_record entries))"
  using assms
proof (induction entries)
  case Nil
  then show ?case by simp
next
  case (Cons e rest)
  then show ?case
    by (simp add: ascii_encode_ok pack_u32_pair_def index_record_def ljust_nul_def length_name_bytes)
qed

lemma length_index_record:
  "length (index_record e) = max 0x20 (length (pk_name e)) + 8"
  by (simp add: index_record_def length_name_bytes length_le32)

text \<open>
  Claim C4, as amended. The index loop of \<^verbatim>\<open>write_archive\<close> has no length check and no
  \<^verbatim>\<open>NameTooLong\<close>: it fails only on a non-ASCII name or on a size or offset that does
  not fit 32 bits. For ASCII names and fitting fields it writes one record per entry, in
  order. A name of at most 32 characters is written left-justified and padded with NULs to
  exactly 32 bytes, followed by size and offset as little-endian 32-bit values, 40 bytes
  in all; a longer name is written whole, so its record has the name's length plus 8.
\<close>

theorem index_encode_records:
  assumes "\<forall>e \<in> set entries. is_ascii (pk_name e) \<and> pk_size e < 2 ^ 32 \<and> pk_offset e < 2 ^ 32"
  shows "write_index entries = Inr (concat (map index_record entries)) \<and>
         (\<forall>e \<in> set entries. length (pk_name e) \<le> 0x20 \<longrightarrow>
            length (index_record e) = 0x20 + 8 \<and>
            take 0x20 (index_record e) =
              name_bytes (pk_name e) @ replicate (0x20 - length (pk_name e)) 0 \<and>
            drop 0x20 (index_record e) = le32 (pk_size e) @ le32 (pk_offset e) \<and>
            unpack_u32_pair (drop 0x20 (index_record e)) = Inr (pk_size e, pk_offset e)) \<and>
         (\<forall>e \<in> set entries. 0x20 < length (pk_name e) \<longrightarrow>
            length (index_record e) = length (pk_name e) + 8)"
proof (intro conjI ballI impI)
  show "write_index entries = Inr (concat (map index_record entries))"
    by (rule write_index_ok [OF assms])
next
  fix e assume e: "e \<in> set entries" and l: "length (pk_name e) \<le> 0x20"
  show "length (index_record e) = 0x20 + 8" using l by (simp add: length_index_record)
  show "take 0x20 (index_record e) =
          name_bytes (pk_name e) @ replicate (0x20 - length (pk_name e)) 0"
    using l by (simp add: index_record_def length_name_bytes)
  show d: "drop 0x20 (index_record e) = le32 (pk_size e) @ le32 (pk_offset e)"
    using l by (simp add: index_record_def length_name_bytes)
  have b: "pk_size e < 2 ^ 32" "pk_offset e < 2 ^ 32" using assms e by auto
  show "unpack_u32_pair (drop 0x20 (index_record e)) = Inr (pk_size e, pk_offset e)"
    unfolding d using unpack_u32_le32 [OF b(1)] unpack_u32_le32 [OF b(2)]
    by (simp add: unpack_u32_pair_def length_le32)
next
  fix e assume "e \<in> set entries" and "0x20 < length (pk_name e)"
  then show "length (index_record e) = length (pk_name e) + 8"
    by (simp add: length_index_record)
qed

lemma sample_long_ascii: "is_ascii (pk_name sample_long)"
  by (simp add: sample_long_def is_ascii_def list_all_iff)

theorem index_encode_records_witness:
  "is_ascii (pk_name sample_long) \<and> pk_size sample_long < 2 ^ 32 \<and>
   pk_offset sample_long < 2 ^ 32 \<and> 0x20 < length (pk_name sample_long) \<and>
   write_index [sample_long] = Inr (index_record sample_long) \<and>
   length (index_record sample_long) = 41"
proof -
  have h: "\<forall>e \<in> set [sample_long]. is_ascii (pk_name e) \<and> pk_size e < 2 ^ 32 \<and> pk_offset e < 2 ^ 32"
    using sample_long_ascii by (simp add: sample_long_def)
  have l: "0x20 < length (pk_name sample_long)" by (simp add: sample_long_def)
  from index_encode_records [OF h] l
  have "write_index [sample_long] = Inr (concat (map index_record [sample_long]))"
    and "length (index_record sample_long) = length (pk_name sample_long) + 8"
    by simp_all
  then show ?thesis using h l by (simp add: sample_long_def)
qed

text \<open>
  The claim as stated fails on a name of 33 characters: the encode returns a record of
  41 bytes instead of failing.
\<close>

theorem name_too_long_counterexample:
  "0x20 < length (pk_name sample_long) \<and>
   write_index [sample_long] = Inr (replicate 33 0x61 @ [0, 0, 0, 0, 0, 0, 0, 0])"
  by (simp add: sample_long_def ascii_encode_def list_all_iff pack_u32_pair_def le32_def
        ljust_nul_def)

section \<open>The layout the packer produces\<close>

text \<open>Offsets assigned to named buffers from a start offset.\<close>

lemma collect_loop_length: "length (collect_loop (as_directory bufs) off) = length bufs"
  by (induction bufs arbitrary: off) (auto simp add: as_directory_def)

lemma collect_loop_nth:
  "k < length bufs \<Longrightarrow>
   collect_loop (as_directory bufs) off ! k =
     \<lparr>pk_name = fst (bufs ! k), pk_size = length (snd (bufs ! k)),
      pk_offset = off + sum_list (map (length \<circ> snd) (take k bufs))\<rparr>"
proof (induction bufs arbitrary: off k)
  case Nil
  then show ?case by simp
next
  case (Cons b bufs)
  obtain nm data where b: "b = (nm, data)" by (cases b)
  show ?case
  proof (cases k)
    case 0
    then show ?thesis by (simp add: b as_directory_def)
  next
    case (Suc j)
    then have j: "j < length bufs" using Cons.prems by simp
    have "collect_loop (as_directory (b # bufs)) off ! k =
            collect_loop (as_directory bufs) (off + length data) ! j"
      by (simp add: b as_directory_def Suc)
    then show ?thesis using Cons.IH [OF j, of "off + length data"]
      by (simp add: b Suc add.assoc)
  qed
qed

lemma collect_loop_Cons:
  "collect_loop (as_directory ((nm, data) # bufs)) off =
     \<lparr>pk_name = nm, pk_size = length data, pk_offset = off\<rparr>
       # collect_loop (as_directory bufs) (off + length data)"
  by (simp add: as_directory_def)

lemma collect_files_buffers:
  "collect_files (as_directory bufs) =
     collect_loop (as_directory bufs) (0x3FE + length bufs * (0x20 + 8))"
  by (simp add: collect_files_def as_directory_def)

lemma map_of_as_directory:
  "distinct (map fst bufs) \<Longrightarrow> (nm, data) \<in> set bufs \<Longrightarrow>
   map_of (as_directory bufs) nm = Some (File data)"
proof -
  assume d: "distinct (map fst bufs)" and m: "(nm, data) \<in> set bufs"
  have "map fst (as_directory bufs) = map fst bufs"
    by (simp add: as_directory_def case_prod_beta comp_def)
  then have "distinct (map fst (as_directory bufs))" using d by simp
  moreover have "(nm, File data) \<in> set (as_directory bufs)"
    using m by (force simp add: as_directory_def)
  ultimately show ?thesis by (rule map_of_is_SomeI)
qed

lemma write_data_Inr:
  assumes "\<forall>b \<in> set bs. map_of dir (fst b) = Some (File (snd b))"
    and "write_data dir (collect_loop (as_directory bs) off) = Inr body"
  shows "map (\<lambda>b. payload (fst b) (snd b)) bs = map (\<lambda>b. Inr (stored_payload b)) bs \<and>
         body = concat (map stored_payload bs)"
  using assms
proof (induction bs arbitrary: off body)
  case Nil
  then show ?case by (simp add: as_directory_def)
next
  case (Cons b bs)
  obtain nm data where b: "b = (nm, data)" by (cases b)
  have look: "map_of dir nm = Some (File data)" using Cons.prems(1) b by simp
  from Cons.prems(2) obtain p out where
    p: "payload nm data = Inr p" and out: "write_data dir (collect_loop (as_directory bs) (off + length data)) = Inr out"
    and body: "body = p @ out"
    by (auto simp add: b collect_loop_Cons look split: sum.splits)
  have sp: "stored_payload b = p" by (simp add: stored_payload_def b p)
  have "\<forall>b \<in> set bs. map_of dir (fst b) = Some (File (snd b))" using Cons.prems(1) by simp
  from Cons.IH [OF this out] show ?case
    by (simp add: body sp) (simp add: b p)
qed

lemma write_data_ok:
  assumes "\<forall>b \<in> set bs. map_of dir (fst b) = Some (File (snd b))"
    and "\<forall>b \<in> set bs. payload (fst b) (snd b) = Inr (stored_payload b)"
  shows "write_data dir (collect_loop (as_directory bs) off) = Inr (concat (map stored_payload bs))"
  using assms
proof (induction bs arbitrary: off)
  case Nil
  then show ?case by (simp add: as_directory_def)
next
  case (Cons b bs)
  obtain nm data where b: "b = (nm, data)" by (cases b)
  have look: "map_of dir nm = Some (File data)" using Cons.prems(1) b by simp
  have p: "payload nm data = Inr (stored_payload b)" using Cons.prems(2) b by simp
  have "write_data dir (collect_loop (as_directory bs) (off + length data))
          = Inr (concat (map stored_payload bs))"
    using Cons.prems by (intro Cons.IH) simp_all
  then show ?case by (simp add: b collect_loop_Cons look p)
qed


lemma encrypt_loop_short:
  "length ws = 4 * n + r \<Longrightarrow> 0 < r \<Longrightarrow> r < 4 \<Longrightarrow>
   encrypt_loop (word_indices (length pre) (Suc n)) s (pre @ ws) = Inl StructError"
proof (induction n arbitrary: pre s ws)
  case 0
  have "length (py_slice (pre @ ws) (length pre) (length pre + 4)) = r"
    using 0 by (simp add: py_slice_def)
  then have "unpack_u32 (py_slice (pre @ ws) (length pre) (length pre + 4)) = Inl StructError"
    using 0 by (intro unpack_u32_len) simp
  then show ?case
    by (simp add: word_indices_Suc word_indices_0 encrypt_step_def)
next
  case (Suc n)
  from Suc.prems(1) obtain b0 r0 where "ws = b0 # r0" by (cases ws) auto
  moreover from Suc.prems(1) this obtain b1 r1 where "r0 = b1 # r1" by (cases r0) auto
  moreover from Suc.prems(1) calculation obtain b2 r2 where "r1 = b2 # r2" by (cases r1) auto
  moreover from Suc.prems(1) calculation obtain b3 rest where "r2 = b3 # rest" by (cases r2) auto
  ultimately have ws: "ws = b0 # b1 # b2 # b3 # rest" by simp
  have len: "length rest = 4 * n + r" using Suc.prems(1) ws by simp
  have "encrypt_loop (word_indices (length (pre @ enc_word s [b0, b1, b2, b3])) (Suc n)) (next_shift s)
          ((pre @ enc_word s [b0, b1, b2, b3]) @ rest) = Inl StructError"
    by (rule Suc.IH [OF len Suc.prems(2,3)])
  then show ?case
    by (simp add: ws word_indices_Suc [of _ "Suc n"] encrypt_step_word length_enc_word)
qed

lemma encrypt_loop_unaligned:
  assumes "\<not> 4 dvd (length data - 16)"
  shows "encrypt_loop (py_range 16 (length data) 4) 4 data = Inl StructError"
proof -
  have ge: "16 \<le> length data" using assms by (cases "16 \<le> length data") simp_all
  have l16: "length (take 16 data) = 16" using ge by simp
  have split: "take 16 data @ drop 16 data = data" by simp
  define m where "m = length data - 16"
  define n where "n = m div 4"
  define r where "r = m mod 4"
  have r: "0 < r" "r < 4" using assms by (auto simp: r_def m_def dvd_eq_mod_eq_0)
  have m: "m = 4 * n + r" by (simp add: n_def r_def)
  have ld: "length (drop 16 data) = 4 * n + r" using m by (simp add: m_def)
  have lt: "length data = 16 + 4 * n + r" using m ge by (simp add: m_def)
  show ?thesis
    using encrypt_loop_short [OF ld r, of "take 16 data" 4]
    by (simp only: l16 split lt py_range_words_rem [OF r])
qed

lemma encrypt_data_small:
  "data \<noteq> [] \<Longrightarrow> length data < 20 \<Longrightarrow> encrypt_data data = Inr data"
  by (cases data) (simp_all add: encrypt_data_def pos_imp_zdiv_pos_iff)

lemma encrypt_data_untagged:
  "data \<noteq> [] \<Longrightarrow> hd data \<noteq> 0x24 \<Longrightarrow> encrypt_data data = Inr data"
  by (cases data) (simp_all add: encrypt_data_def)

lemma encrypt_data_unaligned:
  assumes "20 \<le> length data" "hd data = 0x24" "\<not> 4 dvd (length data - 16)"
  shows "encrypt_data data = Inl StructError"
proof -
  have ne: "data \<noteq> []" using assms(1) by auto
  show ?thesis
    using assms(1) encrypt_loop_unaligned [OF assms(3)]
    by (simp add: encrypt_data_hd [OF ne assms(2)] pos_imp_zdiv_pos_iff)
qed

lemma encrypt_data_length: "encrypt_data data = Inr e \<Longrightarrow> length e = length data"
proof -
  assume r: "encrypt_data data = Inr e"
  have ne: "data \<noteq> []" using r by (cases data) (simp_all add: encrypt_data_def)
  show ?thesis
  proof (cases "hd data = 0x24 \<and> 20 \<le> length data")
    case False
    then have "encrypt_data data = Inr data"
      using encrypt_data_small [OF ne] encrypt_data_untagged [OF ne] by (cases "hd data = 0x24") auto
    then show ?thesis using r by simp
  next
    case True
    then have al: "4 dvd (length data - 16)"
      using r encrypt_data_unaligned [of data] by (cases "4 dvd (length data - 16)") simp_all
    have "16 \<le> length data" using True by simp
    from encrypt_data_aligned [OF this al] True r show ?thesis
      by (auto simp add: length_enc_words)
  qed
qed

lemma payload_length: "payload nm data = Inr p \<Longrightarrow> length p = length data"
  by (auto simp add: payload_def split: if_splits dest: encrypt_data_length)

lemma stored_payload_length:
  "payload (fst b) (snd b) = Inr (stored_payload b) \<Longrightarrow> length (stored_payload b) = length (snd b)"
  by (rule payload_length)

lemma write_index_bounds:
  "write_index entries = Inr index \<Longrightarrow>
   \<forall>e \<in> set entries. is_ascii (pk_name e) \<and> pk_size e < 2 ^ 32 \<and> pk_offset e < 2 ^ 32"
proof (induction entries arbitrary: index)
  case Nil
  then show ?case by simp
next
  case (Cons e rest)
  from Cons.prems obtain nb so out where
    nb: "ascii_encode (pk_name e) = Inr nb" and so: "pack_u32_pair (pk_size e) (pk_offset e) = Inr so"
    and out: "write_index rest = Inr out"
    by (auto split: sum.splits)
  from so have "pk_size e < 2 ^ 32 \<and> pk_offset e < 2 ^ 32"
    by (auto simp add: pack_u32_pair_def split: if_splits)
  with ascii_encode_Inr [OF nb] Cons.IH [OF out] show ?case by simp
qed

lemma sum_list_take_nth_le:
  "k < length xs \<Longrightarrow> sum_list (map f (take k xs)) + f (xs ! k) \<le> (sum_list (map f xs) :: nat)"
proof -
  assume "k < length xs"
  then have "xs = take k xs @ xs ! k # drop (Suc k) xs" by (rule id_take_nth_drop)
  then have "sum_list (map f xs) =
      sum_list (map f (take k xs)) + f (xs ! k) + sum_list (map f (drop (Suc k) xs))"
    by (metis (no_types) add.assoc list.simps(9) map_append sum_list.Cons sum_list.append)
  then show ?thesis by simp
qed

lemma pack_result:
  assumes "distinct (map fst bufs)" and "pack (as_directory bufs) = Inr out"
  shows "out = le32 (length bufs) @ replicate (0x3FE - 4) 0 @
               concat (map index_record (collect_files (as_directory bufs))) @
               concat (map stored_payload bufs)"
    and "map (\<lambda>b. payload (fst b) (snd b)) bufs = map (\<lambda>b. Inr (stored_payload b)) bufs"
    and "length bufs < 2 ^ 32"
    and "\<forall>e \<in> set (collect_files (as_directory bufs)).
           is_ascii (pk_name e) \<and> pk_size e < 2 ^ 32 \<and> pk_offset e < 2 ^ 32"
proof -
  let ?dir = "as_directory bufs"
  let ?es = "collect_files ?dir"
  have len: "length ?es = length bufs"
    by (simp add: collect_files_buffers collect_loop_length)
  from assms(2) obtain header index body where
    h: "pack_u32 (length ?es) = Inr header" and i: "write_index ?es = Inr index"
    and b: "write_data ?dir ?es = Inr body"
    and o: "out = header @ replicate (0x3FE - 4) 0 @ index @ body"
    by (auto simp add: pack_def write_archive_def split: sum.splits)
  from h show n: "length bufs < 2 ^ 32" by (simp add: pack_u32_def len split: if_splits)
  from h have he: "header = le32 (length bufs)" by (auto simp add: pack_u32_def len split: if_splits)
  have look: "\<forall>b \<in> set bufs. map_of ?dir (fst b) = Some (File (snd b))"
    using map_of_as_directory [OF assms(1)] by auto
  note wd = write_data_Inr [OF look b [unfolded collect_files_buffers]]
  from wd show "map (\<lambda>b. payload (fst b) (snd b)) bufs = map (\<lambda>b. Inr (stored_payload b)) bufs"
    by blast
  from wd have be: "body = concat (map stored_payload bufs)" by blast
  from write_index_records [OF i] have ie: "index = concat (map index_record ?es)" .
  show "out = le32 (length bufs) @ replicate (0x3FE - 4) 0 @
               concat (map index_record ?es) @ concat (map stored_payload bufs)"
    by (simp only: o he ie be)
  show "\<forall>e \<in> set ?es. is_ascii (pk_name e) \<and> pk_size e < 2 ^ 32 \<and> pk_offset e < 2 ^ 32"
    by (rule write_index_bounds [OF i])
qed

lemma stored_payload_eq:
  "payload (fst b) (snd b) = Inr p \<Longrightarrow> payload (fst b) (snd b) = Inr (stored_payload b)"
  by (simp add: stored_payload_def)

lemma pack_ok:
  assumes "distinct (map fst bufs)"
    and "\<forall>b \<in> set bufs. is_ascii (fst b)"
    and "\<forall>b \<in> set bufs. payload (fst b) (snd b) = Inr (stored_payload b)"
    and "0x3FE + length bufs * (0x20 + 8) + sum_list (map (length \<circ> snd) bufs) < 2 ^ 32"
  shows "pack (as_directory bufs) =
           Inr (le32 (length bufs) @ replicate (0x3FE - 4) 0 @
                concat (map index_record (collect_files (as_directory bufs))) @
                concat (map stored_payload bufs))"
proof -
  let ?dir = "as_directory bufs"
  let ?es = "collect_files ?dir"
  let ?base = "0x3FE + length bufs * (0x20 + 8)"
  have len: "length ?es = length bufs"
    by (simp add: collect_files_buffers collect_loop_length)
  have bounds: "\<forall>e \<in> set ?es. is_ascii (pk_name e) \<and> pk_size e < 2 ^ 32 \<and> pk_offset e < 2 ^ 32"
  proof
    fix e assume "e \<in> set ?es"
    then obtain k where k: "k < length bufs" and e: "e = ?es ! k"
      using len by (auto simp add: in_set_conv_nth)
    have ek: "e = \<lparr>pk_name = fst (bufs ! k), pk_size = length (snd (bufs ! k)),
                  pk_offset = ?base + sum_list (map (length \<circ> snd) (take k bufs))\<rparr>"
      unfolding e collect_files_buffers by (rule collect_loop_nth [OF k])
    have s: "sum_list (map (length \<circ> snd) (take k bufs)) + (length \<circ> snd) (bufs ! k)
               \<le> sum_list (map (length \<circ> snd) bufs)"
      by (rule sum_list_take_nth_le [OF k])
    have "bufs ! k \<in> set bufs" using k by simp
    then have "is_ascii (fst (bufs ! k))" using assms(2) by blast
    then show "is_ascii (pk_name e) \<and> pk_size e < 2 ^ 32 \<and> pk_offset e < 2 ^ 32"
      using s assms(4) by (simp add: ek)
  qed
  have n: "length bufs < 2 ^ 32" using assms(4) by simp
  have h: "pack_u32 (length ?es) = Inr (le32 (length bufs))"
    using n by (simp add: pack_u32_def len)
  have i: "write_index ?es = Inr (concat (map index_record ?es))"
    by (rule write_index_ok [OF bounds])
  have look: "\<forall>b \<in> set bufs. map_of ?dir (fst b) = Some (File (snd b))"
    using map_of_as_directory [OF assms(1)] by auto
  have b: "write_data ?dir ?es = Inr (concat (map stored_payload bufs))"
    unfolding collect_files_buffers by (rule write_data_ok [OF look assms(3)])
  show ?thesis
    by (simp only: pack_def write_archive_def h i b sum.case)
qed

lemma u32_at_le32_prefix: "v < 2 ^ 32 \<Longrightarrow> u32_at (le32 v @ rest) 0 = Inr v"
  by (simp add: u32_at_def file_read_def length_le32 unpack_u32_le32)

text \<open>
  Claim C6. Whenever the packer builds an archive from a sequence of named buffers (an
  input directory of regular files with distinct names), the output is the 4-byte count,
  zero bytes up to \<open>0x3FE\<close>, the index records of the entries, then the stored payloads
  in the order of the buffers. The entries follow the buffers in order; the first has the
  offset \<open>0x3FE + count * (0x20 + 8)\<close>, entry \<open>k\<close> that value plus the sizes of the buffers
  before it, and every stored payload has the size of its buffer. Count, sizes and
  offsets are below \<open>2 ^ 32\<close>, so the fields written hold exactly these values.
\<close>

theorem writer_layout:
  assumes "distinct (map fst bufs)" and "pack (as_directory bufs) = Inr out"
  shows "out = le32 (length bufs) @ replicate (0x3FE - 4) 0 @
               concat (map index_record (collect_files (as_directory bufs))) @
               concat (map stored_payload bufs) \<and>
         u32_at out 0 = Inr (length bufs) \<and>
         length (collect_files (as_directory bufs)) = length bufs \<and>
         (\<forall>k < length bufs.
            collect_files (as_directory bufs) ! k =
              \<lparr>pk_name = fst (bufs ! k), pk_size = length (snd (bufs ! k)),
               pk_offset = 0x3FE + length bufs * (0x20 + 8)
                           + sum_list (map (length \<circ> snd) (take k bufs))\<rparr> \<and>
            unpack_u32 (le32 (pk_offset (collect_files (as_directory bufs) ! k)))
              = Inr (0x3FE + length bufs * (0x20 + 8)
                     + sum_list (map (length \<circ> snd) (take k bufs))) \<and>
            payload (fst (bufs ! k)) (snd (bufs ! k)) = Inr (stored_payload (bufs ! k)) \<and>
            length (stored_payload (bufs ! k)) = length (snd (bufs ! k)))"
proof -
  let ?es = "collect_files (as_directory bufs)"
  note r = pack_result [OF assms]
  have len: "length ?es = length bufs"
    by (simp add: collect_files_buffers collect_loop_length)
  have c: "u32_at out 0 = Inr (length bufs)"
    unfolding r(1) by (rule u32_at_le32_prefix [OF r(3)])
  have k: "\<forall>k < length bufs.
            ?es ! k =
              \<lparr>pk_name = fst (bufs ! k), pk_size = length (snd (bufs ! k)),
               pk_offset = 0x3FE + length bufs * (0x20 + 8)
                           + sum_list (map (length \<circ> snd) (take k bufs))\<rparr> \<and>
            unpack_u32 (le32 (pk_offset (?es ! k)))
              = Inr (0x3FE + length bufs * (0x20 + 8)
                     + sum_list (map (length \<circ> snd) (take k bufs))) \<and>
            payload (fst (bufs ! k)) (snd (bufs ! k)) = Inr (stored_payload (bufs ! k)) \<and>
            length (stored_payload (bufs ! k)) = length (snd (bufs ! k))"
  proof (intro allI impI)
    fix k assume k: "k < length bufs"
    have ek: "?es ! k =
              \<lparr>pk_name = fst (bufs ! k), pk_size = length (snd (bufs ! k)),
               pk_offset = 0x3FE + length bufs * (0x20 + 8)
                           + sum_list (map (length \<circ> snd) (take k bufs))\<rparr>"
      unfolding collect_files_buffers by (rule collect_loop_nth [OF k])
    have "?es ! k \<in> set ?es" using k len by simp
    then have "pk_offset (?es ! k) < 2 ^ 32" using r(4) by blast
    then have u: "unpack_u32 (le32 (pk_offset (?es ! k))) = Inr (pk_offset (?es ! k))"
      by (rule unpack_u32_le32)
    have "map (\<lambda>b. payload (fst b) (snd b)) bufs ! k = map (\<lambda>b. Inr (stored_payload b)) bufs ! k"
      by (simp only: r(2))
    then have p: "payload (fst (bufs ! k)) (snd (bufs ! k)) = Inr (stored_payload (bufs ! k))"
      using k by simp
    show "?es ! k =
              \<lparr>pk_name = fst (bufs ! k), pk_size = length (snd (bufs ! k)),
               pk_offset = 0x3FE + length bufs * (0x20 + 8)
                           + sum_list (map (length \<circ> snd) (take k bufs))\<rparr> \<and>
            unpack_u32 (le32 (pk_offset (?es ! k)))
              = Inr (0x3FE + length bufs * (0x20 + 8)
                     + sum_list (map (length \<circ> snd) (take k bufs))) \<and>
            payload (fst (bufs ! k)) (snd (bufs ! k)) = Inr (stored_payload (bufs ! k)) \<and>
            length (stored_payload (bufs ! k)) = length (snd (bufs ! k))"
      using ek u p stored_payload_length [OF p] by simp
  qed
  show ?thesis using r(1) c len k by blast
qed


lemma sample_bufs_distinct: "distinct (map fst sample_bufs)"
  by (simp add: sample_bufs_def)

lemma sample_bufs_ascii: "\<forall>b \<in> set sample_bufs. is_ascii (fst b)"
  by (simp add: sample_bufs_def is_ascii_def)

lemma sample_bufs_payload:
  "\<forall>b \<in> set sample_bufs. payload (fst b) (snd b) = Inr (stored_payload b)"
proof -
  have e: "lower (split_last ''a.dat'') = ''dat''" by code_simp
  have "encrypt_data (0x24 # replicate 19 0) =
          Inr (take 16 (0x24 # replicate 19 0) @ enc_words 4 (drop 16 (0x24 # replicate 19 0)))"
    by (rule encrypt_data_aligned) simp_all
  then have 1: "\<exists>p. payload (fst (''a.dat'', 0x24 # replicate 19 (0::byte)))
                      (snd (''a.dat'', 0x24 # replicate 19 (0::byte))) = Inr p"
    by (simp add: payload_def e)
  have 2: "\<exists>p. payload (fst (''b.wav'', [1, 2, 3 :: byte])) (snd (''b.wav'', [1, 2, 3 :: byte])) = Inr p"
    by (simp add: payload_def)
  from 1 2 show ?thesis
    by (auto simp add: sample_bufs_def simp del: fst_conv snd_conv dest: stored_payload_eq)
qed

lemma sample_bufs_pack: "\<exists>out. pack (as_directory sample_bufs) = Inr out"
proof -
  have "0x3FE + length sample_bufs * (0x20 + 8) + sum_list (map (length \<circ> snd) sample_bufs) < 2 ^ 32"
    by (simp add: sample_bufs_def)
  from pack_ok [OF sample_bufs_distinct sample_bufs_ascii sample_bufs_payload this]
  show ?thesis by blast
qed

theorem writer_layout_witness:
  "distinct (map fst sample_bufs) \<and>
   (\<exists>out. pack (as_directory sample_bufs) = Inr out \<and> u32_at out 0 = Inr 2) \<and>
   pk_offset (collect_files (as_directory sample_bufs) ! 0) = 0x3FE + 2 * (0x20 + 8) \<and>
   pk_offset (collect_files (as_directory sample_bufs) ! 1) = 0x3FE + 2 * (0x20 + 8) + 20"
proof -
  from sample_bufs_pack obtain out where p: "pack (as_directory sample_bufs) = Inr out" by blast
  note w = writer_layout [OF sample_bufs_distinct p]
  have l: "length sample_bufs = 2" by (simp add: sample_bufs_def)
  from w [unfolded l] have c: "u32_at out 0 = Inr 2" by blast
  from w [unfolded l] have k: "\<forall>k < 2.
      collect_files (as_directory sample_bufs) ! k =
              \<lparr>pk_name = fst (sample_bufs ! k), pk_size = length (snd (sample_bufs ! k)),
               pk_offset = 0x3FE + 2 * (0x20 + 8)
                           + sum_list (map (length \<circ> snd) (take k sample_bufs))\<rparr>"
    by blast
  have k0: "pk_offset (collect_files (as_directory sample_bufs) ! 0) = 0x3FE + 2 * (0x20 + 8)"
    using k [rule_format, of 0] by simp
  have k1: "pk_offset (collect_files (as_directory sample_bufs) ! 1) = 0x3FE + 2 * (0x20 + 8) + 20"
    using k [rule_format, of 1] by (simp add: sample_bufs_def)
  show ?thesis using sample_bufs_distinct p c k0 k1 by blast
qed


text \<open>
  Outside the claim's domain: a member of the input directory that is no regular file is
  counted in the first offset (\<^verbatim>\<open>len(os.listdir(input_dir))\<close>) but gets no entry.
\<close>

lemma collect_files_subdirectory:
  "collect_files [(''d'', Dir), (''a'', File [])] =
     [\<lparr>pk_name = ''a'', pk_size = 0, pk_offset = 0x3FE + 2 * (0x20 + 8)\<rparr>]"
  by (simp add: collect_files_def)

section \<open>Packing and extracting again\<close>

lemma decrypt_encrypt_aligned:
  assumes "16 \<le> length d" "4 dvd (length d - 16)"
  shows "decrypt_data (take 16 d @ enc_words 4 (drop 16 d)) = Inr d"
proof -
  let ?e = "take 16 d @ enc_words 4 (drop 16 d)"
  have le: "length ?e = length d" by (simp add: length_enc_words)
  have te: "take 16 ?e = take 16 d" "drop 16 ?e = enc_words 4 (drop 16 d)"
    using assms(1) by simp_all
  have "decrypt_data ?e = Inr (take 16 ?e @ dec_words 4 (drop 16 ?e))"
    by (rule decrypt_data_aligned) (simp_all only: le assms)
  then show ?thesis
    by (simp only: te dec_enc_words [of 4, simplified] append_take_drop_id)
qed

lemma payload_agrees:
  assumes "cipher_agrees (nm, d)"
  shows "payload nm d = Inr (stored_payload (nm, d))"
proof -
  have "\<exists>p. payload nm d = Inr p"
  proof (cases "lower (split_last nm) \<notin> set [''jpg'', ''png'', ''bmp'', ''wav'', ''mp3''] \<and> length d > 16")
    case False
    then show ?thesis by (auto simp add: payload_def)
  next
    case True
    then have ne: "d \<noteq> []" by auto
    have p: "payload nm d = encrypt_data d" using True by (simp add: payload_def)
    show ?thesis
    proof (cases "hd d = 0x24 \<and> 20 \<le> length d")
      case False
      then have "encrypt_data d = Inr d"
        using encrypt_data_small [OF ne] encrypt_data_untagged [OF ne] by (cases "hd d = 0x24") auto
      then show ?thesis using p by simp
    next
      case t: True
      then have "4 dvd (length d - 16)" using assms True by (auto simp add: cipher_agrees_def)
      moreover have "16 \<le> length d" using t by simp
      ultimately show ?thesis using encrypt_data_aligned [of d] t p by simp
    qed
  qed
  then show ?thesis by (auto simp add: stored_payload_def)
qed

lemma open_stored:
  assumes "cipher_agrees (nm, d)"
    and "file_read f off (length d) = stored_payload (nm, d)"
  shows "open_entry f (mk_entry nm (length d) off) = Inr d"
proof -
  let ?W = "lower (split_last nm) \<notin> set [''jpg'', ''png'', ''bmp'', ''wav'', ''mp3'']"
  note p = payload_agrees [OF assms(1)]
  have rd: "file_read f (entry_offset (mk_entry nm (length d) off)) (entry_size (mk_entry nm (length d) off))
              = stored_payload (nm, d)"
    using assms(2) by (simp add: mk_entry_def)
  show ?thesis
  proof (cases "length d \<le> 16")
    case True
    then have "stored_payload (nm, d) = d" using p by (simp add: payload_def)
    then show ?thesis using True by (simp add: open_entry_def rd Let_def) (simp add: mk_entry_def)
  next
    case False
    then have ne: "d \<noteq> []" by auto
    then obtain b rest where d: "d = b # rest" by (cases d) auto
    show ?thesis
    proof (cases "hd d = 0x24 \<and> 20 \<le> length d")
      case nf: False
      then have "encrypt_data d = Inr d"
        using encrypt_data_small [OF ne] encrypt_data_untagged [OF ne] by (cases "hd d = 0x24") auto
      then have sp: "stored_payload (nm, d) = d" using p by (auto simp add: payload_def split: if_splits)
      have "b \<noteq> 0x24 \<or> decrypt_data d = Inr d"
        using nf decrypt_data_small [of d] d by auto
      then show ?thesis
        unfolding open_entry_def rd sp Let_def
        by (auto simp add: mk_entry_def d)
    next
      case t: True
      have ge: "16 \<le> length d" using t by simp
      from assms(1) t have "(?W \<and> determine_type nm = Unknown \<and> 4 dvd (length d - 16)) \<or>
          (\<not> ?W \<and> determine_type nm \<noteq> Unknown)"
        by (auto simp add: cipher_agrees_def)
      then show ?thesis
      proof
        assume a: "?W \<and> determine_type nm = Unknown \<and> 4 dvd (length d - 16)"
        then have al: "4 dvd (length d - 16)" by simp
        let ?e = "take 16 d @ enc_words 4 (drop 16 d)"
        have "payload nm d = Inr ?e"
          using a False t encrypt_data_aligned [OF ge al] by (simp add: payload_def)
        then have sp: "stored_payload (nm, d) = ?e" using p by simp
        have he: "?e = b # tl ?e" using ge d by (cases d) auto
        have b: "b = 0x24" using t d by simp
        have dec: "decrypt_data ?e = Inr d" by (rule decrypt_encrypt_aligned [OF ge al])
        have "open_entry f (mk_entry nm (length d) off) =
                (case ?e of [] \<Rightarrow> Inl IndexError
                 | x # _ \<Rightarrow> if x \<noteq> 0x24 then Inr ?e else decrypt_data ?e)"
          unfolding open_entry_def rd sp Let_def using a False by (simp add: mk_entry_def)
        also have "\<dots> = decrypt_data ?e" by (subst he) (simp add: b)
        finally show ?thesis using dec by simp
      next
        assume a: "\<not> ?W \<and> determine_type nm \<noteq> Unknown"
        then have "payload nm d = Inr d" by (simp add: payload_def)
        then have sp: "stored_payload (nm, d) = d" using p by simp
        have "determine_type nm = Image \<or> determine_type nm = Audio"
          using a by (cases "determine_type nm") auto
        then show ?thesis
          unfolding open_entry_def rd sp Let_def by (auto simp add: mk_entry_def)
      qed
    qed
  qed
qed

lemma ascii_decode_name_bytes:
  assumes "is_ascii nm"
  shows "ascii_decode (name_bytes nm @ replicate k 0) = Inr (nm @ replicate k (CHR 0x00))"
proof -
  have c: "\<And>c. c \<in> set nm \<Longrightarrow> (of_char c :: nat) < 128"
    using assms by (simp add: is_ascii_def list_all_iff)
  have u: "\<And>c. c \<in> set nm \<Longrightarrow> unat (of_nat (of_char c) :: byte) = of_char c"
  proof -
    fix c assume "c \<in> set nm"
    then have "(of_char c :: nat) < 256" using c [of c] by simp
    then show "unat (of_nat (of_char c) :: byte) = of_char c" by (simp add: unat_of_nat)
  qed
  have all: "list_all (\<lambda>b. unat b < 128) (name_bytes nm @ replicate k 0)"
    using c u by (auto simp add: list_all_iff name_bytes_def)
  have m: "map (\<lambda>b. char_of (unat b)) (name_bytes nm) = nm"
  proof -
    have "map (\<lambda>b. char_of (unat b)) (name_bytes nm) = map (\<lambda>c. c) nm"
      unfolding name_bytes_def map_map
      by (rule map_cong) (simp_all add: u)
    then show ?thesis by simp
  qed
  have z0: "char_of (0 :: nat) = CHR 0x00" by code_simp
  have z: "char_of (unat (0 :: byte)) = CHR 0x00" by (simp add: z0)
  show ?thesis
    using all by (simp add: ascii_decode_def m z0)
qed

lemma rstrip_nul_padded:
  assumes "nm = [] \<or> last nm \<noteq> CHR 0x00"
  shows "rstrip_nul (nm @ replicate k (CHR 0x00)) = nm"
proof -
  have "dropWhile (\<lambda>c. c = CHR 0x00) (replicate k (CHR 0x00) @ rev nm)
          = dropWhile (\<lambda>c. c = CHR 0x00) (rev nm)"
    by (rule dropWhile_append2) simp
  also have "\<dots> = rev nm"
  proof (cases nm rule: rev_cases)
    case Nil
    then show ?thesis by simp
  next
    case (snoc ys y)
    then show ?thesis using assms by simp
  qed
  finally show ?thesis by (simp add: rstrip_nul_def)
qed

lemma unpack_u32_pair_le32:
  "a < 2 ^ 32 \<Longrightarrow> b < 2 ^ 32 \<Longrightarrow> unpack_u32_pair (le32 a @ le32 b) = Inr (a, b)"
  by (simp add: unpack_u32_pair_def length_le32 unpack_u32_le32)

lemma index_record_valid:
  assumes "length (pk_name e) \<le> 0x20"
  shows "length (index_record e) = 40"
    and "take 0x20 (index_record e) = name_bytes (pk_name e) @ replicate (0x20 - length (pk_name e)) 0"
    and "drop 0x20 (index_record e) = le32 (pk_size e) @ le32 (pk_offset e)"
  using assms by (simp_all add: index_record_def length_name_bytes length_le32)

lemma valid_name_no_trailing_nul:
  "valid_name nm \<Longrightarrow> nm = [] \<or> last nm \<noteq> CHR 0x00"
proof -
  assume "valid_name nm"
  then have "CHR 0x00 \<notin> set nm" by (simp add: valid_name_def is_plain_name_def)
  then show ?thesis using last_in_set [of nm] by metis
qed

lemma read_index_packed:
  assumes "\<forall>e \<in> set es. valid_name (pk_name e) \<and> pk_size e < 2 ^ 32 \<and> pk_offset e < 2 ^ 32"
  shows "read_index (pre @ concat (map index_record es) @ post) (length es) (length pre) 0x20
           = Inr (map to_entry es)"
  using assms
proof (induction es arbitrary: pre)
  case Nil
  then show ?case by simp
next
  case (Cons e es)
  let ?rest = "concat (map index_record es) @ post"
  let ?f = "pre @ concat (map index_record (e # es)) @ post"
  have v: "valid_name (pk_name e)" "pk_size e < 2 ^ 32" "pk_offset e < 2 ^ 32"
    using Cons.prems by simp_all
  have l: "length (pk_name e) \<le> 0x20" and a: "is_ascii (pk_name e)"
    using v(1) by (simp_all add: valid_name_def)
  have t: "pk_name e = [] \<or> last (pk_name e) \<noteq> CHR 0x00"
    using v(1) by (rule valid_name_no_trailing_nul)
  note r = index_record_valid [OF l]
  have f: "?f = pre @ index_record e @ ?rest" by simp
  have n: "file_read ?f (length pre) 0x20 =
             name_bytes (pk_name e) @ replicate (0x20 - length (pk_name e)) 0"
    unfolding f file_read_def using r(1,2) by simp
  have so: "file_read ?f (length pre + 0x20) 8 = le32 (pk_size e) @ le32 (pk_offset e)"
  proof -
    have "drop (length pre + 0x20) (pre @ index_record e @ ?rest) = drop 0x20 (index_record e) @ ?rest"
      using r(1) by simp
    then show ?thesis unfolding f file_read_def r(3) by (simp add: length_le32)
  qed
  have ih: "read_index ((pre @ index_record e) @ concat (map index_record es) @ post) (length es)
              (length (pre @ index_record e)) 0x20 = Inr (map to_entry es)"
    using Cons.prems by (intro Cons.IH) simp
  have ih': "read_index ?f (length es) (length pre + 0x20 + 8) 0x20 = Inr (map to_entry es)"
    using ih r(1) by (simp add: add.assoc)
  have "read_index ?f (Suc (length es)) (length pre) 0x20 =
          Inr (mk_entry (pk_name e) (pk_size e) (pk_offset e) # map to_entry es)"
    unfolding read_index.simps n so ih'
    by (simp add: ascii_decode_name_bytes [OF a] rstrip_nul_padded [OF t]
          unpack_u32_pair_le32 [OF v(2,3)])
  then show ?case by (simp add: to_entry_def del: read_index.simps)
qed

lemma write_output_plain:
  "is_plain_name nm \<Longrightarrow> out nm \<noteq> Some Dir \<Longrightarrow>
   write_output out nm data = Inr (out(nm \<mapsto> File data))"
  by (auto simp add: write_output_def is_plain_name_def split: option.splits node.splits)

lemma extract_packed:
  assumes "\<forall>b \<in> set bs. cipher_agrees b \<and> is_plain_name (fst b)"
    and "distinct (map fst bs)"
    and "\<forall>b \<in> set bs. out (fst b) \<noteq> Some Dir"
  shows "extract_entries (pre @ concat (map stored_payload bs) @ post)
           (map to_entry (collect_loop (as_directory bs) (length pre))) out
         = Inr (out ++ map_of (as_directory bs))"
  using assms
proof (induction bs arbitrary: pre out)
  case Nil
  then show ?case by (simp add: as_directory_def)
next
  case (Cons b bs)
  obtain nm d where b: "b = (nm, d)" by (cases b)
  let ?f = "pre @ concat (map stored_payload (b # bs)) @ post"
  let ?out = "out(nm \<mapsto> File d)"
  have ag: "cipher_agrees (nm, d)" and pn: "is_plain_name nm" using Cons.prems(1) b by simp_all
  have nd: "out nm \<noteq> Some Dir" using Cons.prems(3) b by simp
  have fresh: "nm \<notin> fst ` set bs" using Cons.prems(2) b by simp
  have pl: "length (stored_payload (nm, d)) = length d"
    using payload_length [OF payload_agrees [OF ag]] .
  have f: "?f = pre @ stored_payload (nm, d) @ concat (map stored_payload bs) @ post"
    by (simp add: b)
  have rd: "file_read ?f (length pre) (length d) = stored_payload (nm, d)"
    unfolding f file_read_def using pl by simp
  have o: "open_entry ?f (mk_entry nm (length d) (length pre)) = Inr d"
    by (rule open_stored [OF ag rd])
  have w: "write_output out nm d = Inr ?out"
    by (rule write_output_plain [of nm out d, OF pn nd])
  have nd': "\<forall>b \<in> set bs. ?out (fst b) \<noteq> Some Dir"
    using Cons.prems(3) fresh by auto
  have ih: "extract_entries ((pre @ stored_payload (nm, d)) @ concat (map stored_payload bs) @ post)
           (map to_entry (collect_loop (as_directory bs) (length (pre @ stored_payload (nm, d))))) ?out
           = Inr (?out ++ map_of (as_directory bs))"
    using Cons.prems(1,2) nd' by (intro Cons.IH) simp_all
  have ih': "extract_entries ?f
           (map to_entry (collect_loop (as_directory bs) (length pre + length d))) ?out
           = Inr (?out ++ map_of (as_directory bs))"
    using ih pl by (simp add: b)
  have "dom (map_of (as_directory bs)) = fst ` set bs"
    by (force simp add: dom_map_of_conv_image_fst as_directory_def)
  then have "nm \<notin> dom (map_of (as_directory bs))" using fresh by simp
  then have m: "?out ++ map_of (as_directory bs) = out ++ map_of (as_directory (b # bs))"
    by (simp add: b as_directory_def map_add_upd_left)
  have nm: "entry_name (mk_entry nm (length d) (length pre)) = nm" by (simp add: mk_entry_def)
  have "extract_entries ?f
          (map to_entry (collect_loop (as_directory (b # bs)) (length pre))) out
        = extract_entries ?f
            (map to_entry (collect_loop (as_directory bs) (length pre + length d))) ?out"
    unfolding b collect_loop_Cons list.map extract_entries.simps
      to_entry_def [of "\<lparr>pk_name = nm, pk_size = length d, pk_offset = length pre\<rparr>"]
    using o w nm by (simp add: b)
  then show ?case using ih' m by simp
qed

lemma length_index_records:
  "\<forall>e \<in> set es. length (pk_name e) \<le> 0x20 \<Longrightarrow>
   length (concat (map index_record es)) = length es * 40"
  by (induction es) (simp_all add: index_record_valid(1))

lemma collect_files_member:
  assumes "e \<in> set (collect_files (as_directory bufs))"
  shows "\<exists>k < length bufs.
           e = \<lparr>pk_name = fst (bufs ! k), pk_size = length (snd (bufs ! k)),
                pk_offset = 0x3FE + length bufs * (0x20 + 8)
                            + sum_list (map (length \<circ> snd) (take k bufs))\<rparr>"
proof -
  have len: "length (collect_files (as_directory bufs)) = length bufs"
    by (simp add: collect_files_buffers collect_loop_length)
  from assms obtain k where k: "k < length bufs" and e: "e = collect_files (as_directory bufs) ! k"
    using len by (auto simp add: in_set_conv_nth)
  have "e = \<lparr>pk_name = fst (bufs ! k), pk_size = length (snd (bufs ! k)),
                pk_offset = 0x3FE + length bufs * (0x20 + 8)
                            + sum_list (map (length \<circ> snd) (take k bufs))\<rparr>"
    unfolding e collect_files_buffers by (rule collect_loop_nth [OF k])
  with k show ?thesis by blast
qed

lemma roundtrip_unfold:
  assumes "bufs \<noteq> []" and "length bufs < 100000" and "distinct (map fst bufs)"
    and "\<forall>b \<in> set bufs. valid_name (fst b)"
    and "\<forall>b \<in> set bufs. payload (fst b) (snd b) = Inr (stored_payload b)"
    and "0x3FE + length bufs * (0x20 + 8) + sum_list (map (length \<circ> snd) bufs) < 2 ^ 32"
  shows "\<exists>pre. length pre = 0x3FE + length bufs * (0x20 + 8) \<and>
           pack (as_directory bufs) = Inr (pre @ concat (map stored_payload bufs) @ []) \<and>
           roundtrip bufs =
             map_sum id Some
               (extract_entries (pre @ concat (map stored_payload bufs) @ [])
                  (map to_entry (collect_loop (as_directory bufs) (length pre))) Map.empty)"
proof -
  let ?n = "length bufs"
  let ?es = "collect_files (as_directory bufs)"
  let ?H = "le32 ?n @ replicate (0x3FE - 4) 0"
  let ?I = "concat (map index_record ?es)"
  let ?B = "concat (map stored_payload bufs)"
  let ?base = "0x3FE + ?n * (0x20 + 8)"
  let ?out = "(?H @ ?I) @ ?B @ []"
  have len: "length ?es = ?n" by (simp add: collect_files_buffers collect_loop_length)
  have asc: "\<forall>b \<in> set bufs. is_ascii (fst b)" using assms(4) by (simp add: valid_name_def)
  have p: "pack (as_directory bufs) = Inr ?out"
    using pack_ok [OF assms(3) asc assms(5,6)] by simp
  have valid: "\<forall>e \<in> set ?es. valid_name (pk_name e) \<and> pk_size e < 2 ^ 32 \<and> pk_offset e < 2 ^ 32"
  proof
    fix e assume "e \<in> set ?es"
    from collect_files_member [OF this] obtain k where k: "k < ?n"
      and ek: "e = \<lparr>pk_name = fst (bufs ! k), pk_size = length (snd (bufs ! k)),
                pk_offset = ?base + sum_list (map (length \<circ> snd) (take k bufs))\<rparr>" by blast
    have s: "sum_list (map (length \<circ> snd) (take k bufs)) + (length \<circ> snd) (bufs ! k)
               \<le> sum_list (map (length \<circ> snd) bufs)"
      by (rule sum_list_take_nth_le [OF k])
    have "bufs ! k \<in> set bufs" using k by simp
    then have "valid_name (fst (bufs ! k))" using assms(4) by blast
    then show "valid_name (pk_name e) \<and> pk_size e < 2 ^ 32 \<and> pk_offset e < 2 ^ 32"
      using s assms(6) by (simp add: ek)
  qed
  have lH: "length ?H = 0x3FE" by (simp add: length_le32)
  have lI: "length ?I = ?n * 40"
    using length_index_records [of ?es] valid by (simp add: valid_name_def len)
  have lpre: "length (?H @ ?I) = ?base" using lH lI by simp
  have n32: "?n < 2 ^ 32" using assms(2) by simp
  have c: "u32_at ?out 0 = Inr ?n"
    using u32_at_le32_prefix [OF n32] by simp
  have sane: "is_sane_count ?n" using assms(1,2) by (simp add: is_sane_count_def)
  obtain e0 rest where es: "?es = e0 # rest" using len assms(1) by (cases ?es) auto
  have e0: "e0 = ?es ! 0" by (simp add: es)
  have off0: "pk_offset e0 = ?base"
    unfolding e0 collect_files_buffers using collect_loop_nth [of 0 bufs] assms(1) by simp
  have v0: "valid_name (pk_name e0)" "pk_offset e0 < 2 ^ 32" using valid es by simp_all
  then have l0: "length (pk_name e0) \<le> 0x20" by (simp add: valid_name_def)
  have fo: "u32_at ?out (0x3FE + 0x20 + 4) = Inr (0x3FE + ?n * (0x20 + 8))"
  proof -
    have d: "drop 36 (index_record e0) = le32 (pk_offset e0)"
    proof -
      have "drop 36 (index_record e0) = drop 4 (drop 0x20 (index_record e0))" by simp
      also have "\<dots> = le32 (pk_offset e0)"
        unfolding index_record_valid(3) [OF l0] by (simp add: length_le32)
      finally show ?thesis .
    qed
    have "?out = ?H @ index_record e0 @ (concat (map index_record rest) @ ?B)"
      by (simp add: es)
    then have "drop 1058 ?out = drop 36 (index_record e0) @ (concat (map index_record rest) @ ?B)"
      using lH index_record_valid(1) [OF l0] by simp
    then have "file_read ?out 1058 4 = le32 (pk_offset e0)"
      unfolding file_read_def d by (simp add: length_le32)
    then show ?thesis
      using unpack_u32_le32 [OF v0(2)] by (simp add: u32_at_def off0)
  qed
  have ri: "read_index ?out ?n 0x3FE 0x20 = Inr (map to_entry ?es)"
  proof -
    have "read_index (?H @ ?I @ ?B) (length ?es) (length ?H) 0x20 = Inr (map to_entry ?es)"
      by (rule read_index_packed [OF valid])
    then show ?thesis by (simp add: len length_le32)
  qed
  have "find_opener ?out = Inr (PacOpener, Some (map to_entry ?es))"
    by (rule find_opener_wide [OF c sane fo ri])
  then have "extract_archive ?out Absent =
      map_sum id Some (extract_entries ?out (map to_entry ?es) Map.empty)"
    by (simp add: extract_archive_def makedirs_def)
  then have r: "roundtrip bufs =
      map_sum id Some (extract_entries ?out (map to_entry ?es) Map.empty)"
    by (simp add: roundtrip_def p)
  have "?es = collect_loop (as_directory bufs) (length (?H @ ?I))"
    unfolding lpre by (rule collect_files_buffers)
  with r have "roundtrip bufs = map_sum id Some (extract_entries ?out
       (map to_entry (collect_loop (as_directory bufs) (length (?H @ ?I)))) Map.empty)" by simp
  with lpre p show ?thesis by blast
qed

text \<open>
  Claim C1, as amended. Building an archive from named buffers and extracting every
  entry into a new output directory leaves exactly the buffers there, each under its name
  and byte for byte, when: there is at least one buffer and fewer than 100000; the names
  are distinct file names (not empty, not \<open>.\<close> or \<open>..\<close>, no separator, no NUL), ASCII and
  at most 32 characters long; the archive stays below \<open>2 ^ 32\<close> bytes; and packer and
  extractor treat each buffer alike (\<open>cipher_agrees\<close>): both leave it alone, or both run
  the cipher on a region of whole words. The packer decides by its extension list, the
  extractor by the kind of the name, and the two tables differ.
\<close>

theorem roundtrip_agreeing:
  assumes "bufs \<noteq> []" and "length bufs < 100000" and "distinct (map fst bufs)"
    and "\<forall>b \<in> set bufs. valid_name (fst b) \<and> cipher_agrees b"
    and "0x3FE + length bufs * (0x20 + 8) + sum_list (map (length \<circ> snd) bufs) < 2 ^ 32"
  shows "roundtrip bufs = Inr (Some (map_of (as_directory bufs))) \<and>
         (\<forall>nm data. (nm, data) \<in> set bufs \<longrightarrow>
            map_of (as_directory bufs) nm = Some (File data)) \<and>
         dom (map_of (as_directory bufs)) = fst ` set bufs"
proof -
  have v: "\<forall>b \<in> set bufs. valid_name (fst b)" using assms(4) by blast
  have ag: "\<forall>b \<in> set bufs. cipher_agrees b \<and> is_plain_name (fst b)"
    using assms(4) by (simp add: valid_name_def)
  have p: "\<forall>b \<in> set bufs. payload (fst b) (snd b) = Inr (stored_payload b)"
    using ag payload_agrees by (metis prod.collapse)
  from roundtrip_unfold [OF assms(1,2,3) v p assms(5)] obtain pre where
    r: "roundtrip bufs =
             map_sum id Some
               (extract_entries (pre @ concat (map stored_payload bufs) @ [])
                  (map to_entry (collect_loop (as_directory bufs) (length pre))) Map.empty)"
    by blast
  have "extract_entries (pre @ concat (map stored_payload bufs) @ [])
          (map to_entry (collect_loop (as_directory bufs) (length pre))) Map.empty
        = Inr (Map.empty ++ map_of (as_directory bufs))"
    by (rule extract_packed [OF ag assms(3)]) simp
  then have 1: "roundtrip bufs = Inr (Some (map_of (as_directory bufs)))"
    unfolding r by simp
  have 2: "\<forall>nm data. (nm, data) \<in> set bufs \<longrightarrow>
            map_of (as_directory bufs) nm = Some (File data)"
    using map_of_as_directory [OF assms(3)] by blast
  have 3: "dom (map_of (as_directory bufs)) = fst ` set bufs"
    by (force simp add: dom_map_of_conv_image_fst as_directory_def)
  show ?thesis using 1 2 3 by blast
qed

lemma sample_bufs_valid: "\<forall>b \<in> set sample_bufs. valid_name (fst b) \<and> cipher_agrees b"
proof -
  have e: "lower (split_last ''a.dat'') = ''dat''" by code_simp
  have 1: "valid_name ''a.dat''" "valid_name ''b.wav''"
    by (simp_all add: valid_name_def is_ascii_def is_plain_name_def)
  have 2: "cipher_agrees (''a.dat'', 0x24 # replicate 19 0)"
    by (simp add: cipher_agrees_def e determine_type_dat)
  have 3: "cipher_agrees (''b.wav'', [1, 2, 3])"
    by (simp add: cipher_agrees_def)
  show ?thesis using 1 2 3 by (simp add: sample_bufs_def)
qed

theorem roundtrip_agreeing_witness:
  "sample_bufs \<noteq> [] \<and> length sample_bufs < 100000 \<and> distinct (map fst sample_bufs) \<and>
   list_all (\<lambda>b. valid_name (fst b) \<and> cipher_agrees b) sample_bufs \<and>
   0x3FE + length sample_bufs * (0x20 + 8) + sum_list (map (length \<circ> snd) sample_bufs) < 2 ^ 32 \<and>
   roundtrip sample_bufs =
     Inr (Some [''b.wav'' \<mapsto> File [1, 2, 3], ''a.dat'' \<mapsto> File (0x24 # replicate 19 0)])"
proof -
  have 1: "sample_bufs \<noteq> []" and 2: "length sample_bufs < 100000"
    by (simp_all add: sample_bufs_def)
  have 5: "0x3FE + length sample_bufs * (0x20 + 8) + sum_list (map (length \<circ> snd) sample_bufs) < 2 ^ 32"
    by (simp add: sample_bufs_def)
  have m: "map_of (as_directory sample_bufs) =
      [''b.wav'' \<mapsto> File [1, 2, 3], ''a.dat'' \<mapsto> File (0x24 # replicate 19 0)]"
    by (simp add: sample_bufs_def as_directory_def)
  from roundtrip_agreeing [OF 1 2 sample_bufs_distinct sample_bufs_valid 5]
  have "roundtrip sample_bufs = Inr (Some (map_of (as_directory sample_bufs)))" by blast
  then show ?thesis using 1 2 sample_bufs_distinct sample_bufs_valid 5
    by (simp only: list_all_iff simp_thms m)
qed

lemma sample_jpg_roundtrip:
  "roundtrip sample_jpg =
     Inr (Some [''x.jpg'' \<mapsto> File (0x24 # replicate 15 0 @ [0x9D, 0x85, 0xD5, 0xF7])])"
proof -
  let ?d = "0x24 # replicate 19 (0::byte)"
  have e: "lower (split_last ''x.jpg'') = ''jpg''" by code_simp
  have t: "determine_type ''x.jpg'' = Unknown" by code_simp
  have pl: "payload ''x.jpg'' ?d = Inr ?d" by (simp add: payload_def e)
  then have sp: "stored_payload (''x.jpg'', ?d) = ?d" by (simp add: stored_payload_def)
  have 1: "sample_jpg \<noteq> []" and 2: "length sample_jpg < 100000"
    and 3: "distinct (map fst sample_jpg)"
    by (simp_all add: sample_jpg_def)
  have 4: "\<forall>b \<in> set sample_jpg. valid_name (fst b)"
    by (simp add: sample_jpg_def valid_name_def is_ascii_def is_plain_name_def)
  have 5: "\<forall>b \<in> set sample_jpg. payload (fst b) (snd b) = Inr (stored_payload b)"
    using pl sp by (simp add: sample_jpg_def)
  have 6: "0x3FE + length sample_jpg * (0x20 + 8) + sum_list (map (length \<circ> snd) sample_jpg) < 2 ^ 32"
    by (simp add: sample_jpg_def)
  from roundtrip_unfold [OF 1 2 3 4 5 6] obtain pre where
    r: "roundtrip sample_jpg =
             map_sum id Some
               (extract_entries (pre @ concat (map stored_payload sample_jpg) @ [])
                  (map to_entry (collect_loop (as_directory sample_jpg) (length pre))) Map.empty)"
    by blast
  have f: "pre @ concat (map stored_payload sample_jpg) @ [] = pre @ ?d"
    using sp by (simp add: sample_jpg_def)
  have es: "map to_entry (collect_loop (as_directory sample_jpg) (length pre))
              = [mk_entry ''x.jpg'' 20 (length pre)]"
    by (simp add: sample_jpg_def as_directory_def to_entry_def)
  have rd: "file_read (pre @ ?d) (length pre) 20 = ?d" by (simp add: file_read_def)
  have w: "dec_word 4 [0, 0, 0, 0] = [0x9D, 0x85, 0xD5, 0xF7]"
    by (simp add: dec_word_def rotl8_def cipher_mask_def le32_def)
  have "decrypt_data ?d = Inr (take 16 ?d @ dec_words 4 (drop 16 ?d))"
    by (rule decrypt_data_aligned) simp_all
  also have "take 16 ?d = 0x24 # replicate 15 0" by simp
  also have "drop 16 ?d = [0, 0, 0, 0]" by (simp add: numeral_eq_Suc)
  finally have dec: "decrypt_data ?d = Inr (0x24 # replicate 15 0 @ [0x9D, 0x85, 0xD5, 0xF7])"
    by (simp add: w)
  have "open_entry (pre @ ?d) (mk_entry ''x.jpg'' 20 (length pre)) = decrypt_data ?d"
    by (simp add: open_entry_def mk_entry_def t rd Let_def)
  then have oe: "open_entry (pre @ ?d) (mk_entry ''x.jpg'' 20 (length pre)) =
      Inr (0x24 # replicate 15 0 @ [0x9D, 0x85, 0xD5, 0xF7])"
    by (simp only: dec)
  have nm: "entry_name (mk_entry ''x.jpg'' 20 (length pre)) = ''x.jpg''"
    by (simp add: mk_entry_def)
  have pn: "is_plain_name ''x.jpg''" by (simp add: is_plain_name_def)
  have wo: "write_output Map.empty ''x.jpg'' (0x24 # replicate 15 0 @ [0x9D, 0x85, 0xD5, 0xF7])
              = Inr [''x.jpg'' \<mapsto> File (0x24 # replicate 15 0 @ [0x9D, 0x85, 0xD5, 0xF7])]"
    by (rule write_output_plain [of "''x.jpg''" Map.empty, OF pn]) simp
  show ?thesis unfolding r f es by (simp add: oe nm wo)
qed

text \<open>
  The claim as stated fails for a name in the packer's list: \<open>x.jpg\<close> with a 20-byte
  buffer that starts with \<open>0x24\<close> is stored unchanged by the packer, but its kind is
  unknown to the extractor, which runs the decode on it and writes other bytes.
\<close>

theorem roundtrip_counterexample:
  "roundtrip sample_jpg \<noteq> Inr (Some (map_of (as_directory sample_jpg)))"
proof -
  have "replicate 4 (0::byte) = [0, 0, 0, 0]" by (simp add: numeral_eq_Suc)
  then have r: "replicate 19 (0::byte) = replicate 15 0 @ [0, 0, 0, 0]"
    using replicate_add [of 15 4 "0::byte"] by simp
  have m: "map_of (as_directory sample_jpg) = [''x.jpg'' \<mapsto> File (0x24 # replicate 19 0)]"
    by (simp add: sample_jpg_def as_directory_def)
  have "[''x.jpg'' \<mapsto> File (0x24 # replicate 15 0 @ [0x9D, 0x85, 0xD5, 0xF7])] ''x.jpg''
          \<noteq> [''x.jpg'' \<mapsto> File (0x24 # replicate 19 (0::byte))] ''x.jpg''"
    by (simp add: r)
  then have "[''x.jpg'' \<mapsto> File (0x24 # replicate 15 0 @ [0x9D, 0x85, 0xD5, 0xF7])]
          \<noteq> [''x.jpg'' \<mapsto> File (0x24 # replicate 19 (0::byte))]"
    by metis
  then show ?thesis unfolding sample_jpg_roundtrip m by simp
qed

end
